theory Spec2Isabelle
  imports Main "HOL-Library.Word" "HOL-Library.Sublist"
begin

section \<open>Strings of UTF-16 code units\<close>

text \<open>
  A JavaScript string is a finite sequence of 16-bit code units. String literals of the
  source are written \<open>js ''...''\<close>; all of them are ASCII.
\<close>

type_synonym jschar = "16 word"
type_synonym jsstring = "jschar list"

definition js :: "string \<Rightarrow> jsstring" where
  "js = map of_char"

definition NL :: jschar where "NL = 0x0A"
definition CR :: jschar where "CR = 0x0D"
definition TAB :: jschar where "TAB = 0x09"
definition SP :: jschar where "SP = 0x20"
definition HASH :: jschar where "HASH = 0x23"
definition AMP :: jschar where "AMP = 0x26"
definition SLASH :: jschar where "SLASH = 0x2F"
definition LT :: jschar where "LT = 0x3C"
definition GT :: jschar where "GT = 0x3E"

text \<open>
  The code units matched by \<^verbatim>\<open>\s\<close> and removed by \<^verbatim>\<open>String.prototype.trim\<close>:
  ECMAScript's WhiteSpace (TAB, VT, FF, SP, NBSP, ZWNBSP and the category Zs) and
  LineTerminator (LF, CR, LS, PS).
\<close>

definition is_ws :: "jschar \<Rightarrow> bool" where
  "is_ws c \<longleftrightarrow>
     c = 0x09 \<or> c = 0x0A \<or> c = 0x0B \<or> c = 0x0C \<or> c = 0x0D \<or> c = 0x20 \<or> c = 0xA0 \<or>
     c = 0x1680 \<or> (0x2000 \<le> c \<and> c \<le> 0x200A) \<or> c = 0x2028 \<or> c = 0x2029 \<or>
     c = 0x202F \<or> c = 0x205F \<or> c = 0x3000 \<or> c = 0xFEFF"

definition is_digit :: "jschar \<Rightarrow> bool" where
  "is_digit c \<longleftrightarrow> 0x30 \<le> c \<and> c \<le> 0x39"

text \<open>
  Canonicalize of a pattern without the \<^verbatim>\<open>u\<close> flag maps a code unit to its upper case,
  and never maps a code unit above 127 to an ASCII one. Every letter of the source's
  patterns is ASCII, so comparing canonical forms only needs the ASCII part of the map.
\<close>

definition canonicalize :: "jschar \<Rightarrow> jschar" where
  "canonicalize c = (if 0x61 \<le> c \<and> c \<le> 0x7A then c - 0x20 else c)"

section \<open>The regular expressions of the source\<close>

text \<open>
  Every pattern of \<^verbatim>\<open>htmlToParagraphs\<close> is a sequence of quantified character classes:
  no alternation, group, anchor or backreference occurs. \<open>Atom c lo hi g\<close> is the class
  \<open>c\<close> repeated at least \<open>lo\<close> and at most \<open>hi\<close> times (\<open>None\<close>: unbounded), greedy when
  \<open>g\<close> holds and lazy otherwise.
\<close>

datatype atom = Atom "jschar \<Rightarrow> bool" nat "nat option" bool

fun accepts :: "atom \<Rightarrow> jschar \<Rightarrow> bool" where
  "accepts (Atom c lo hi g) x = c x"

definition chr :: "jschar \<Rightarrow> jschar \<Rightarrow> bool" where
  "chr c x \<longleftrightarrow> x = c"

definition chr_i :: "jschar \<Rightarrow> jschar \<Rightarrow> bool" where
  "chr_i c x \<longleftrightarrow> canonicalize x = canonicalize c"

definition not_gt :: "jschar \<Rightarrow> bool" where
  "not_gt x \<longleftrightarrow> x \<noteq> GT"

definition any_char :: "jschar \<Rightarrow> bool" where
  "any_char x \<longleftrightarrow> True"

definition one_to_six :: "jschar \<Rightarrow> bool" where
  "one_to_six x \<longleftrightarrow> 0x31 \<le> x \<and> x \<le> 0x36"

definition once :: "(jschar \<Rightarrow> bool) \<Rightarrow> atom" where
  "once c = Atom c 1 (Some 1) True"

definition lit_i :: "string \<Rightarrow> atom list" where
  "lit_i w = map (\<lambda>c. once (chr_i (of_char c))) w"

subsection \<open>Backtracking matcher\<close>

text \<open>
  \<open>cands a s\<close> lists, in the order in which a backtracking matcher tries them, the
  strings that remain after the atom \<open>a\<close> has consumed a prefix of \<open>s\<close>: the longest
  repetition first for a greedy atom, the shortest first for a lazy one.
\<close>

fun span_len :: "(jschar \<Rightarrow> bool) \<Rightarrow> nat option \<Rightarrow> jsstring \<Rightarrow> nat" where
  "span_len c None s = length (takeWhile c s)"
| "span_len c (Some h) s = min h (length (takeWhile c s))"

fun drops_up :: "nat \<Rightarrow> nat \<Rightarrow> jsstring \<Rightarrow> jsstring list" where
  "drops_up lo 0 s = [drop lo s]"
| "drops_up lo (Suc d) s = drop lo s # drops_up (Suc lo) d s"

fun cands :: "atom \<Rightarrow> jsstring \<Rightarrow> jsstring list" where
  "cands (Atom c lo hi g) s =
     (let n = span_len c hi s in
      if n < lo then []
      else if g then rev (drops_up lo (n - lo) s)
      else drops_up lo (n - lo) s)"

primrec first_some :: "('a \<Rightarrow> 'b option) \<Rightarrow> 'a list \<Rightarrow> 'b option" where
  "first_some f [] = None"
| "first_some f (x # xs) = (case f x of Some y \<Rightarrow> Some y | None \<Rightarrow> first_some f xs)"

text \<open>
  \<open>rmatch p s\<close> matches the pattern \<open>p\<close> at the start of \<open>s\<close> and returns what follows
  the match, or \<open>None\<close> when no way of matching exists.
\<close>

primrec rmatch :: "atom list \<Rightarrow> jsstring \<Rightarrow> jsstring option" where
  "rmatch [] s = Some s"
| "rmatch (a # as) s = first_some (rmatch as) (cands a s)"

subsection \<open>\<^verbatim>\<open>String.prototype.replace\<close> with a global pattern\<close>

text \<open>
  The matches are found from left to right and do not overlap; the text between them is
  kept. After an empty match the scan moves on by one code unit. No replacement string
  of the source contains a \<^verbatim>\<open>$\<close>.
\<close>

function replace_g :: "atom list \<Rightarrow> jsstring \<Rightarrow> jsstring \<Rightarrow> jsstring" where
  "replace_g p r [] = (case rmatch p [] of None \<Rightarrow> [] | Some u \<Rightarrow> r)"
| "replace_g p r (c # cs) =
     (case rmatch p (c # cs) of
        None \<Rightarrow> c # replace_g p r cs
      | Some rest \<Rightarrow>
          if length rest < length (c # cs) then r @ replace_g p r rest
          else r @ c # replace_g p r cs)"
  by pat_completeness auto
termination
  by (relation "measure (\<lambda>(p, r, s). length s)") auto

subsection \<open>\<^verbatim>\<open>String.prototype.split\<close> with a pattern, \<^verbatim>\<open>trim\<close> and \<^verbatim>\<open>join\<close>\<close>

text \<open>
  \<open>split_loop p acc s\<close>: \<open>acc\<close> is the current piece, reversed, and \<open>s\<close> the text not yet
  scanned. An empty match never closes an empty piece.
\<close>

function split_loop :: "atom list \<Rightarrow> jsstring \<Rightarrow> jsstring \<Rightarrow> jsstring list" where
  "split_loop p acc [] = [rev acc]"
| "split_loop p acc (c # cs) =
     (case rmatch p (c # cs) of
        None \<Rightarrow> split_loop p (c # acc) cs
      | Some rest \<Rightarrow>
          if length rest < length (c # cs) then rev acc # split_loop p [] rest
          else if acc = [] then split_loop p [c] cs
          else rev acc # split_loop p [c] cs)"
  by pat_completeness auto
termination
  by (relation "measure (\<lambda>(p, acc, s). length s)") auto

definition split_re :: "atom list \<Rightarrow> jsstring \<Rightarrow> jsstring list" where
  "split_re p s =
     (if s = [] then (case rmatch p [] of None \<Rightarrow> [[]] | Some u \<Rightarrow> [])
      else split_loop p [] s)"

definition trim :: "jsstring \<Rightarrow> jsstring" where
  "trim s = rev (dropWhile is_ws (rev (dropWhile is_ws s)))"

text \<open>
  \<^verbatim>\<open>Array.prototype.join\<close>: the loop over the index \<open>k\<close> with the result \<open>R\<close> so far; the
  separator is added before every element but the first.
\<close>

fun join_loop :: "jsstring \<Rightarrow> jsstring \<Rightarrow> nat \<Rightarrow> jsstring list \<Rightarrow> jsstring" where
  "join_loop sep R k [] = R"
| "join_loop sep R k (x # xs) = join_loop sep ((if 0 < k then R @ sep else R) @ x) (Suc k) xs"

definition array_join :: "jsstring \<Rightarrow> jsstring list \<Rightarrow> jsstring" where
  "array_join sep xs = join_loop sep [] 0 xs"

section \<open>The patterns, in source order\<close>

definition re_nbsp :: "atom list" where "re_nbsp = lit_i ''&nbsp;''"
definition re_amp :: "atom list" where "re_amp = lit_i ''&amp;''"
definition re_apos :: "atom list" where "re_apos = lit_i ''&#39;''"
definition re_quot :: "atom list" where "re_quot = lit_i ''&quot;''"
definition re_lt :: "atom list" where "re_lt = lit_i ''&lt;''"
definition re_gt :: "atom list" where "re_gt = lit_i ''&gt;''"

text \<open>\<^verbatim>\<open>/<script[\s\S]*?>[\s\S]*?<\/script>/gi\<close> and the same for \<^verbatim>\<open>style\<close>.\<close>

definition re_script :: "atom list" where
  "re_script = lit_i ''<script'' @ [Atom any_char 0 None False] @ lit_i ''>'' @
               [Atom any_char 0 None False] @ lit_i ''</script>''"

definition re_style :: "atom list" where
  "re_style = lit_i ''<style'' @ [Atom any_char 0 None False] @ lit_i ''>'' @
              [Atom any_char 0 None False] @ lit_i ''</style>''"

text \<open>\<^verbatim>\<open>/<br\s*\/?>/gi\<close>, \<^verbatim>\<open>/<\/p>/gi\<close>, \<^verbatim>\<open>/<\/div>/gi\<close>, \<^verbatim>\<open>/<\/h[1-6]>/gi\<close>.\<close>

definition re_br :: "atom list" where
  "re_br = lit_i ''<br'' @ [Atom is_ws 0 None True, Atom (chr_i SLASH) 0 (Some 1) True] @
           lit_i ''>''"

definition re_p_close :: "atom list" where "re_p_close = lit_i ''</p>''"
definition re_div_close :: "atom list" where "re_div_close = lit_i ''</div>''"
definition re_h_close :: "atom list" where
  "re_h_close = lit_i ''</h'' @ [once one_to_six] @ lit_i ''>''"

text \<open>\<^verbatim>\<open>/<p[^>]*>/gi\<close>, \<^verbatim>\<open>/<div[^>]*>/gi\<close>, \<^verbatim>\<open>/<h[1-6][^>]*>/gi\<close>.\<close>

definition re_p_open :: "atom list" where
  "re_p_open = lit_i ''<p'' @ [Atom not_gt 0 None True] @ lit_i ''>''"
definition re_div_open :: "atom list" where
  "re_div_open = lit_i ''<div'' @ [Atom not_gt 0 None True] @ lit_i ''>''"
definition re_h_open :: "atom list" where
  "re_h_open = lit_i ''<h'' @ [once one_to_six, Atom not_gt 0 None True] @ lit_i ''>''"

text \<open>\<^verbatim>\<open>/<[^>]+>/g\<close>, \<^verbatim>\<open>/#\d{2,}/g\<close>, \<^verbatim>\<open>/&{2,}/g\<close>.\<close>

definition re_tag :: "atom list" where
  "re_tag = [once (chr LT), Atom not_gt 1 None True, once (chr GT)]"
definition re_hash :: "atom list" where
  "re_hash = [once (chr HASH), Atom is_digit 2 None True]"
definition re_amps :: "atom list" where
  "re_amps = [Atom (chr AMP) 2 None True]"

text \<open>\<^verbatim>\<open>/\r/g\<close>, \<^verbatim>\<open>/\t/g\<close>, \<^verbatim>\<open>/ {2,}/g\<close>, \<^verbatim>\<open>/\n{3,}/g\<close>, \<^verbatim>\<open>/\n{2,}/\<close>.\<close>

definition re_cr :: "atom list" where "re_cr = [once (chr CR)]"
definition re_tab :: "atom list" where "re_tab = [once (chr TAB)]"
definition re_spaces :: "atom list" where "re_spaces = [Atom (chr SP) 2 None True]"
definition re_nl3 :: "atom list" where "re_nl3 = [Atom (chr NL) 3 None True]"
definition re_nl2 :: "atom list" where "re_nl2 = [Atom (chr NL) 2 None True]"

section \<open>\<^verbatim>\<open>htmlToParagraphs\<close> and \<^verbatim>\<open>joinParagraphs\<close>\<close>

text \<open>
  The stages follow the comment blocks of the source, one substitution per line. The
  replacement \<open>[0x27]\<close> is the apostrophe and \<open>[0x22]\<close> the double quote.
\<close>

definition decode_entities :: "jsstring \<Rightarrow> jsstring" where
  "decode_entities s0 =
     (let s = replace_g re_nbsp (js '' '') s0;
          s = replace_g re_amp (js ''&'') s;
          s = replace_g re_apos [0x27] s;
          s = replace_g re_quot [0x22] s;
          s = replace_g re_lt (js ''<'') s;
          s = replace_g re_gt (js ''>'') s
      in s)"

definition remove_danger :: "jsstring \<Rightarrow> jsstring" where
  "remove_danger s0 =
     (let s = replace_g re_script [] s0;
          s = replace_g re_style [] s
      in s)"

definition block_boundaries :: "jsstring \<Rightarrow> jsstring" where
  "block_boundaries s0 =
     (let s = replace_g re_br [NL] s0;
          s = replace_g re_p_close [NL, NL] s;
          s = replace_g re_div_close [NL, NL] s;
          s = replace_g re_h_close [NL, NL] s
      in s)"

definition opening_tags :: "jsstring \<Rightarrow> jsstring" where
  "opening_tags s0 =
     (let s = replace_g re_p_open [] s0;
          s = replace_g re_div_open [] s;
          s = replace_g re_h_open [] s
      in s)"

definition strip_tags :: "jsstring \<Rightarrow> jsstring" where
  "strip_tags s = replace_g re_tag [] s"

definition remove_noise :: "jsstring \<Rightarrow> jsstring" where
  "remove_noise s0 =
     (let s = replace_g re_hash [] s0;
          s = replace_g re_amps (js ''&'') s
      in s)"

definition normalize_ws :: "jsstring \<Rightarrow> jsstring" where
  "normalize_ws s0 =
     (let s = replace_g re_cr [] s0;
          s = replace_g re_tab (js '' '') s;
          s = replace_g re_spaces (js '' '') s;
          s = replace_g re_nl3 [NL, NL] s;
          s = trim s
      in s)"

definition split_paragraphs :: "jsstring \<Rightarrow> jsstring list" where
  "split_paragraphs s = filter (\<lambda>p. p \<noteq> []) (map trim (split_re re_nl2 s))"

text \<open>
  The argument is \<open>None\<close> when the caller passes \<^verbatim>\<open>undefined\<close> or nothing: the default
  parameter value \<^verbatim>\<open>""\<close> is then used, and the empty string is falsy.
\<close>

definition htmlToParagraphs :: "jsstring option \<Rightarrow> jsstring list" where
  "htmlToParagraphs arg =
     (let input = (case arg of None \<Rightarrow> [] | Some v \<Rightarrow> v) in
      if input = [] then []
      else split_paragraphs (normalize_ws (remove_noise (strip_tags (opening_tags
             (block_boundaries (remove_danger (decode_entities input))))))))"

definition joinParagraphs :: "jsstring option \<Rightarrow> jsstring" where
  "joinParagraphs arg = array_join [NL, NL] (htmlToParagraphs arg)"

section \<open>Case-insensitive words in a string\<close>

text \<open>
  \<open>same_i w t\<close>: the string \<open>t\<close> is the ASCII word \<open>w\<close> up to letter case, as a
  case-insensitive pattern compares them. \<open>starts_i w s\<close>: \<open>s\<close> begins with such a
  string. \<open>contains_i w s\<close>: one begins somewhere in \<open>s\<close>.
\<close>

definition same_i :: "string \<Rightarrow> jsstring \<Rightarrow> bool" where
  "same_i w t \<longleftrightarrow> list_all2 (\<lambda>c x. chr_i (of_char c) x) w t"

fun starts_i :: "string \<Rightarrow> jsstring \<Rightarrow> bool" where
  "starts_i [] s = True"
| "starts_i (c # w) [] = False"
| "starts_i (c # w) (x # s) = (chr_i (of_char c) x \<and> starts_i w s)"


section \<open>The shape of a returned paragraph\<close>

text \<open>
  \<open>clean p\<close> collects what the whitespace stage and the split leave behind: \<open>p\<close> is not
  empty, has no whitespace at either end, no carriage return or tab, no two adjacent
  spaces and no two adjacent newlines.
\<close>

definition clean :: "jsstring \<Rightarrow> bool" where
  "clean p \<longleftrightarrow> p \<noteq> [] \<and> \<not> is_ws (hd p) \<and> \<not> is_ws (last p) \<and> CR \<notin> set p \<and> TAB \<notin> set p \<and>
     \<not> sublist [SP, SP] p \<and> \<not> sublist [NL, NL] p"

text \<open>
  The six stages that rewrite entities, tags and noise, taken together: what
  \<open>htmlToParagraphs\<close> applies to a non-empty input before the whitespace stage.
\<close>

definition markup_stages :: "jsstring \<Rightarrow> jsstring" where
  "markup_stages s = remove_noise (strip_tags (opening_tags (block_boundaries
     (remove_danger (decode_entities s)))))"

section \<open>The specification's reading of the preview join\<close>

text \<open>
  The specification describes the joined preview as the paragraphs concatenated with a
  separator between neighbours. \<open>sep_concat\<close> is that description, written without
  reference to the loop of \<open>array_join\<close>.
\<close>

fun sep_concat :: "jsstring \<Rightarrow> jsstring list \<Rightarrow> jsstring" where
  "sep_concat sep [] = []"
| "sep_concat sep [x] = x"
| "sep_concat sep (x # y # ys) = x @ sep @ sep_concat sep (y # ys)"

section \<open>Facts about the matcher and the substitution loop\<close>

lemma drops_up_eq: "drops_up lo d s = map (\<lambda>k. drop k s) [lo..<Suc (lo + d)]"
proof (induction d arbitrary: lo)
  case 0
  then show ?case by simp
next
  case (Suc d)
  have "[lo..<Suc (lo + Suc d)] = lo # [Suc lo..<Suc (Suc lo + d)]"
    by (simp add: upt_conv_Cons)
  then show ?case by (simp add: Suc.IH del: upt_Suc)
qed

lemma span_len_le: "span_len c hi s \<le> length (takeWhile c s)"
  by (cases hi) simp_all

lemma cands_elem:
  assumes "t \<in> set (cands (Atom c lo hi g) s)"
  shows "\<exists>k. lo \<le> k \<and> k \<le> span_len c hi s \<and> t = drop k s"
proof -
  let ?n = "span_len c hi s"
  from assms have n: "lo \<le> ?n" and "t \<in> set (drops_up lo (?n - lo) s)"
    by (auto simp: Let_def split: if_splits)
  then have "t \<in> (\<lambda>k. drop k s) ` {lo..<Suc (lo + (?n - lo))}"
    by (simp add: drops_up_eq del: upt_Suc)
  then obtain k where "lo \<le> k" "k < Suc (lo + (?n - lo))" "t = drop k s"
    by auto
  with n show ?thesis by (intro exI [of _ k]) simp
qed

lemma first_some_SomeD: "first_some f xs = Some y \<Longrightarrow> \<exists>x\<in>set xs. f x = Some y"
  by (induction xs) (auto split: option.splits)

lemma first_some_None: "(\<And>x. x \<in> set xs \<Longrightarrow> f x = None) \<Longrightarrow> first_some f xs = None"
  by (induction xs) auto


lemma take_span_accepted:
  assumes "k \<le> length (takeWhile c s)" "x \<in> set (take k s)"
  shows "c x"
proof -
  have "take k s = take k (takeWhile c s @ dropWhile c s)" by simp
  also have "\<dots> = take k (takeWhile c s)" using assms(1) by (simp del: takeWhile_dropWhile_id)
  finally have "set (take k s) \<subseteq> set (takeWhile c s)" by (metis set_take_subset)
  with assms(2) show ?thesis by (auto dest: set_takeWhileD)
qed

lemma rmatch_split:
  "rmatch p s = Some rest \<Longrightarrow> \<exists>m. s = m @ rest \<and> (\<forall>x\<in>set m. \<exists>a\<in>set p. accepts a x)"
proof (induction p arbitrary: s)
  case Nil
  then show ?case by simp
next
  case (Cons a as)
  obtain c lo hi g where a: "a = Atom c lo hi g" by (cases a)
  from Cons.prems obtain t where t: "t \<in> set (cands a s)" "rmatch as t = Some rest"
    by (auto dest: first_some_SomeD)
  from t(1) a have "t \<in> set (cands (Atom c lo hi g) s)" by simp
  then obtain k where k: "k \<le> span_len c hi s" "t = drop k s"
    by (blast dest: cands_elem)
  from Cons.IH [OF t(2)] obtain m where m: "t = m @ rest" "\<forall>x\<in>set m. \<exists>b\<in>set as. accepts b x"
    by blast
  have "k \<le> length (takeWhile c s)" using k(1) span_len_le by (rule order_trans)
  then have "\<forall>x\<in>set (take k s). accepts a x"
    using a by (auto dest: take_span_accepted)
  moreover have "s = (take k s @ m) @ rest"
    using k(2) m(1) by (metis append_assoc append_take_drop_id)
  ultimately show ?case using m(2)
    by (intro exI [of _ "take k s @ m"]) auto
qed

lemma rmatch_suffix: "rmatch p s = Some rest \<Longrightarrow> suffix rest s"
  by (auto dest: rmatch_split simp: suffix_def)

lemma rmatch_once:
  "rmatch (once c # as) s = (case s of [] \<Rightarrow> None | x # xs \<Rightarrow> if c x then rmatch as xs else None)"
  by (cases s) (simp_all add: once_def split: option.split)

lemma rmatch_first_fail:
  assumes "0 < lo" "s = [] \<or> \<not> c (hd s)"
  shows "rmatch (Atom c lo hi g # as) s = None"
proof -
  have "takeWhile c s = []" using assms(2) by (cases s) auto
  then have "span_len c hi s = 0" by (cases hi) simp_all
  then show ?thesis using assms(1) by simp
qed

lemma replace_g_skip:
  assumes "\<And>k. k < length pre \<Longrightarrow> rmatch p (drop k pre @ rest) = None"
  shows "replace_g p r (pre @ rest) = pre @ replace_g p r rest"
  using assms
proof (induction pre)
  case Nil
  then show ?case by simp
next
  case (Cons c cs)
  have "rmatch p ((c # cs) @ rest) = None" using Cons.prems [of 0] by simp
  moreover have "replace_g p r (cs @ rest) = cs @ replace_g p r rest"
  proof (rule Cons.IH)
    fix k assume "k < length cs"
    then show "rmatch p (drop k cs @ rest) = None" using Cons.prems [of "Suc k"] by simp
  qed
  ultimately show ?case by simp
qed

lemma replace_g_hit:
  assumes "rmatch p (m @ post) = Some post" "m \<noteq> []"
  shows "replace_g p r (m @ post) = r @ replace_g p r post"
proof -
  obtain c cs where "m @ post = c # cs" using assms(2) by (cases m) auto
  moreover have "length post < length (m @ post)" using assms(2) by simp
  ultimately show ?thesis using assms(1) by simp
qed

lemma replace_g_id:
  assumes "rmatch p [] = None" "\<And>k. k < length s \<Longrightarrow> rmatch p (drop k s) = None"
  shows "replace_g p r s = s"
proof -
  have "replace_g p r (s @ []) = s @ replace_g p r []"
    by (rule replace_g_skip) (simp add: assms(2))
  then show ?thesis using assms(1) by simp
qed

lemma replace_g_first_absent:
  assumes "0 < lo" "\<And>x. x \<in> set s \<Longrightarrow> \<not> c x"
  shows "replace_g (Atom c lo hi g # as) r s = s"
proof (rule replace_g_id)
  show "rmatch (Atom c lo hi g # as) [] = None"
    by (rule rmatch_first_fail) (use assms(1) in simp_all)
next
  fix k assume k: "k < length s"
  then have "drop k s \<noteq> []" by simp
  then have "hd (drop k s) \<in> set (drop k s)" by (rule hd_in_set)
  then have "hd (drop k s) \<in> set s" by (rule in_set_dropD)
  then have "\<not> c (hd (drop k s))" by (rule assms(2))
  then show "rmatch (Atom c lo hi g # as) (drop k s) = None"
    by (intro rmatch_first_fail assms(1) disjI2)
qed

lemma cands_greedy:
  assumes "lo \<le> length (takeWhile c s)"
  shows "cands (Atom c lo None True) s =
           dropWhile c s # rev (map (\<lambda>k. drop k s) [lo..<length (takeWhile c s)])"
proof -
  let ?n = "length (takeWhile c s)"
  have "drop ?n s = dropWhile c s" by (rule dropWhile_eq_drop [symmetric])
  moreover have "[lo..<Suc (lo + (?n - lo))] = [lo..<?n] @ [?n]"
    using assms by simp
  ultimately show ?thesis using assms by (simp add: drops_up_eq del: upt_Suc)
qed

lemma drop_in_span:
  assumes "k < length (takeWhile c s)"
  shows "drop k s \<noteq> [] \<and> c (hd (drop k s))"
proof -
  have "k < length s" using assms length_takeWhile_le [of c s] by simp
  then have "hd (drop k s) = s ! k" by (simp add: hd_drop_conv_nth)
  also have "\<dots> = takeWhile c s ! k" using assms by (simp add: takeWhile_nth)
  finally have "hd (drop k s) \<in> set (takeWhile c s)" using assms by simp
  then show ?thesis using \<open>k < length s\<close> by (auto dest: set_takeWhileD)
qed

lemma rmatch_greedy_then:
  assumes "\<And>t. t \<noteq> [] \<Longrightarrow> c (hd t) \<Longrightarrow> rmatch as t = None"
  shows "rmatch (Atom c lo None True # as) s =
           (if lo \<le> length (takeWhile c s) then rmatch as (dropWhile c s) else None)"
proof (cases "lo \<le> length (takeWhile c s)")
  case True
  have "first_some (rmatch as) (rev (map (\<lambda>k. drop k s) [lo..<length (takeWhile c s)])) = None"
  proof (rule first_some_None)
    fix x assume "x \<in> set (rev (map (\<lambda>k. drop k s) [lo..<length (takeWhile c s)]))"
    then obtain k where "k < length (takeWhile c s)" "x = drop k s" by auto
    then show "rmatch as x = None" using drop_in_span [of k c s] assms by simp
  qed
  then show ?thesis using True
    by (simp only: rmatch.simps cands_greedy [OF True] first_some.simps if_True split: option.split) simp
next
  case False
  then show ?thesis by simp
qed

lemma rmatch_greedy_last:
  "rmatch [Atom c lo None True] s =
     (if lo \<le> length (takeWhile c s) then Some (dropWhile c s) else None)"
proof (cases "lo \<le> length (takeWhile c s)")
  case True
  then show ?thesis
    by (simp only: rmatch.simps cands_greedy [OF True] first_some.simps if_True) simp
next
  case False
  then show ?thesis by simp
qed

lemma rmatch_needs:
  assumes "Atom c lo hi g \<in> set p" "0 < lo" "\<And>x. x \<in> set s \<Longrightarrow> \<not> c x"
  shows "rmatch p s = None"
  using assms(1,3)
proof (induction p arbitrary: s)
  case Nil
  then show ?case by simp
next
  case (Cons b bs)
  show ?case
  proof (cases "b = Atom c lo hi g")
    case True
    have "s = [] \<or> \<not> c (hd s)" using Cons.prems(2) by (cases s) auto
    then show ?thesis unfolding True using assms(2) by (intro rmatch_first_fail)
  next
    case False
    then have mem: "Atom c lo hi g \<in> set bs" using Cons.prems(1) by simp
    have "first_some (rmatch bs) (cands b s) = None"
    proof (rule first_some_None)
      fix t assume t: "t \<in> set (cands b s)"
      obtain c' lo' hi' g' where b: "b = Atom c' lo' hi' g'" by (cases b)
      from t b obtain k where "t = drop k s" by (blast dest: cands_elem)
      then have "\<And>x. x \<in> set t \<Longrightarrow> \<not> c x" using Cons.prems(2) by (auto dest: in_set_dropD)
      with mem show "rmatch bs t = None" by (rule Cons.IH)
    qed
    then show ?thesis by simp
  qed
qed

lemma replace_g_needs:
  assumes "Atom c lo hi g \<in> set p" "0 < lo" "\<And>x. x \<in> set s \<Longrightarrow> \<not> c x"
  shows "replace_g p r s = s"
proof (rule replace_g_id)
  show "rmatch p [] = None" using assms(1,2) by (rule rmatch_needs) simp
next
  fix k
  show "rmatch p (drop k s) = None"
    using assms(1,2) by (rule rmatch_needs) (auto dest: in_set_dropD assms(3))
qed

lemma replace_g_append:
  assumes "rmatch p [] = None"
    and "\<And>u. u \<noteq> [] \<Longrightarrow> rmatch p (u @ v) = map_option (\<lambda>t. t @ v) (rmatch p u)"
  shows "replace_g p r (pre @ v) = replace_g p r pre @ replace_g p r v"
  using assms
proof (induction p r pre rule: replace_g.induct)
  case (1 p r)
  then show ?case by simp
next
  case (2 p r c cs)
  have eq: "rmatch p (c # cs @ v) = map_option (\<lambda>t. t @ v) (rmatch p (c # cs))"
    using "2.prems"(2) [of "c # cs"] by simp
  show ?case
  proof (cases "rmatch p (c # cs)")
    case None
    then show ?thesis using eq "2.IH"(1) "2.prems" by simp
  next
    case (Some rest)
    then show ?thesis using eq "2.IH"(2,3) "2.prems"
      by (cases "length rest < length (c # cs)") simp_all
  qed
qed

lemma replace_g_keeps:
  assumes "\<And>a. a \<in> set p \<Longrightarrow> \<not> accepts a x" "x \<in> set s"
  shows "x \<in> set (replace_g p r s)"
  using assms
proof (induction p r s rule: replace_g.induct)
  case (1 p r)
  then show ?case by simp
next
  case (2 p r c cs)
  show ?case
  proof (cases "rmatch p (c # cs)")
    case None
    then show ?thesis using "2.IH"(1) "2.prems" by auto
  next
    case (Some rest)
    then obtain m where m: "c # cs = m @ rest" "\<forall>y\<in>set m. \<exists>a\<in>set p. accepts a y"
      by (blast dest: rmatch_split)
    then have "x \<notin> set m" using "2.prems"(1) by blast
    then have "x \<in> set rest" using m(1) "2.prems"(2) by (metis Un_iff set_append)
    then show ?thesis using Some "2.IH"(2,3) "2.prems"
      by (cases "length rest < length (c # cs)") auto
  qed
qed

lemma dropWhile_keeps: "x \<in> set s \<Longrightarrow> \<not> P x \<Longrightarrow> x \<in> set (dropWhile P s)"
  by (induction s) auto

lemma trim_keeps: "x \<in> set s \<Longrightarrow> \<not> is_ws x \<Longrightarrow> x \<in> set (trim s)"
  by (simp add: trim_def dropWhile_keeps)

lemma split_loop_keeps:
  assumes "\<And>a. a \<in> set p \<Longrightarrow> \<not> accepts a x" "x \<in> set acc \<or> x \<in> set s"
  shows "\<exists>q\<in>set (split_loop p acc s). x \<in> set q"
  using assms
proof (induction p acc s rule: split_loop.induct)
  case (1 p acc)
  then show ?case by simp
next
  case (2 p acc c cs)
  show ?case
  proof (cases "rmatch p (c # cs)")
    case None
    then show ?thesis using "2.IH"(1) "2.prems" by auto
  next
    case (Some rest)
    then obtain m where m: "c # cs = m @ rest" "\<forall>y\<in>set m. \<exists>a\<in>set p. accepts a y"
      by (blast dest: rmatch_split)
    then have "x \<notin> set m" using "2.prems"(1) by blast
    then have "x \<in> set (c # cs) \<Longrightarrow> x \<in> set rest" using m(1) by (metis Un_iff set_append)
    then show ?thesis using Some "2.IH"(2,3,4) "2.prems"
      by (cases "length rest < length (c # cs)"; cases "acc = []") auto
  qed
qed

declare rmatch.simps(2) [simp del]

section \<open>Generic tag stripping and what the later stages keep\<close>

lemmas char_defs = NL_def CR_def TAB_def SP_def HASH_def AMP_def SLASH_def LT_def GT_def

lemma rmatch_gt_only:
  "rmatch [once (chr GT)] t = (case t of [] \<Rightarrow> None | y # ys \<Rightarrow> if y = GT then Some ys else None)"
  by (simp add: rmatch_once chr_def split: list.split)

lemma rmatch_re_tag:
  "rmatch re_tag s =
     (case s of [] \<Rightarrow> None
      | x # xs \<Rightarrow>
          if x = LT \<and> 1 \<le> length (takeWhile not_gt xs)
          then rmatch [once (chr GT)] (dropWhile not_gt xs) else None)"
proof -
  have "rmatch [Atom not_gt 1 None True, once (chr GT)] xs =
          (if 1 \<le> length (takeWhile not_gt xs)
           then rmatch [once (chr GT)] (dropWhile not_gt xs) else None)" for xs
    by (rule rmatch_greedy_then) (auto simp add: rmatch_gt_only not_gt_def split: list.split)
  then show ?thesis
    by (simp add: re_tag_def rmatch_once chr_def split: list.split)
qed

lemma rmatch_re_tag_append:
  assumes "GT \<notin> set v"
  shows "rmatch re_tag (u @ v) = map_option (\<lambda>t. t @ v) (rmatch re_tag u)"
proof (cases u)
  case Nil
  have "rmatch re_tag v = None"
    by (rule rmatch_needs [of "chr GT" 1 "Some 1" True])
       (use assms in \<open>auto simp: re_tag_def once_def chr_def\<close>)
  then show ?thesis using Nil by (simp add: rmatch_re_tag)
next
  case (Cons x xs)
  show ?thesis
  proof (cases "GT \<in> set xs")
    case True
    then have ex: "\<exists>y\<in>set xs. \<not> not_gt y" by (auto simp: not_gt_def)
    then have tw: "takeWhile not_gt (xs @ v) = takeWhile not_gt xs"
      and dw: "dropWhile not_gt (xs @ v) = dropWhile not_gt xs @ v"
      by (auto simp: takeWhile_append1 dropWhile_append1)
    from ex have "dropWhile not_gt xs \<noteq> []" by (auto simp: dropWhile_eq_Nil_conv)
    then show ?thesis using Cons tw dw
      by (cases "dropWhile not_gt xs") (simp_all add: rmatch_re_tag rmatch_gt_only)
  next
    case False
    then have "\<forall>y\<in>set (xs @ v). not_gt y" "\<forall>y\<in>set xs. not_gt y"
      using assms by (auto simp: not_gt_def)
    then have d: "dropWhile not_gt (xs @ v) = []" "dropWhile not_gt xs = []"
      by (simp_all only: dropWhile_eq_Nil_conv)
    have A: "rmatch re_tag (x # ys) =
               (if x = LT \<and> 1 \<le> length (takeWhile not_gt ys)
                then rmatch [once (chr GT)] (dropWhile not_gt ys) else None)" for ys
      by (simp add: rmatch_re_tag)
    have n: "rmatch [once (chr GT)] [] = None" by (simp add: rmatch_gt_only)
    have "rmatch re_tag (x # xs @ v) = None" "rmatch re_tag (x # xs) = None"
      by (simp_all only: A d n if_cancel)
    then show ?thesis using Cons by simp
  qed
qed

lemma strip_tags_no_gt:
  assumes "GT \<notin> set s"
  shows "strip_tags s = s"
  unfolding strip_tags_def
  by (rule replace_g_needs [of "chr GT" 1 "Some 1" True])
     (use assms in \<open>auto simp: re_tag_def once_def chr_def\<close>)

lemma strip_tags_append:
  assumes "GT \<notin> set v"
  shows "strip_tags (pre @ v) = strip_tags pre @ v"
proof -
  have "rmatch re_tag [] = None" by (simp add: rmatch_re_tag)
  then have "replace_g re_tag [] (pre @ v) = replace_g re_tag [] pre @ replace_g re_tag [] v"
    by (rule replace_g_append) (rule rmatch_re_tag_append [OF assms])
  then show ?thesis using strip_tags_no_gt [OF assms] by (simp add: strip_tags_def)
qed

lemma lt_facts: "LT \<noteq> NL" "LT \<noteq> CR" "LT \<noteq> TAB" "LT \<noteq> SP" "LT \<noteq> HASH" "LT \<noteq> AMP" "LT \<noteq> GT"
  "\<not> is_ws LT" "\<not> is_digit LT"
  by (simp_all add: char_defs is_ws_def is_digit_def)

lemma remove_noise_keeps_lt: "LT \<in> set s \<Longrightarrow> LT \<in> set (remove_noise s)"
  unfolding remove_noise_def Let_def
  by (intro replace_g_keeps) (auto simp: re_hash_def re_amps_def once_def chr_def lt_facts)

lemma normalize_ws_keeps_lt: "LT \<in> set s \<Longrightarrow> LT \<in> set (normalize_ws s)"
  unfolding normalize_ws_def Let_def
  by (intro trim_keeps replace_g_keeps)
     (auto simp: re_cr_def re_tab_def re_spaces_def re_nl3_def once_def chr_def lt_facts)

lemma split_paragraphs_keeps_lt:
  assumes "LT \<in> set s"
  shows "LT \<in> set (concat (split_paragraphs s))"
proof -
  from assms have ne: "s \<noteq> []" by auto
  have "\<exists>q\<in>set (split_loop re_nl2 [] s). LT \<in> set q"
    by (rule split_loop_keeps) (use assms in \<open>auto simp: re_nl2_def chr_def lt_facts\<close>)
  then obtain q where q: "q \<in> set (split_re re_nl2 s)" "LT \<in> set q"
    using ne by (auto simp: split_re_def)
  then have t: "LT \<in> set (trim q)" by (simp add: trim_keeps lt_facts)
  then have "trim q \<noteq> []" by auto
  with q(1) have "trim q \<in> set (split_paragraphs s)" by (auto simp: split_paragraphs_def)
  with t show ?thesis by auto
qed

section \<open>Line-break tags and script and style blocks\<close>

lemma chr_i_simps:
  "chr_i LT x \<longleftrightarrow> x = LT" "chr_i GT x \<longleftrightarrow> x = GT" "chr_i SLASH x \<longleftrightarrow> x = SLASH"
  "chr_i AMP x \<longleftrightarrow> x = AMP"
  by (auto simp: chr_i_def canonicalize_def char_defs diff_eq_eq)

lemmas chr_i_num = chr_i_simps [unfolded char_defs]

lemma rmatch_lit_i:
  "same_i w t \<Longrightarrow> rmatch (lit_i w @ as) (t @ u) = rmatch as u"
  unfolding same_i_def
  by (induction w t rule: list_all2_induct) (simp_all add: lit_i_def rmatch_once)

lemma rmatch_optional:
  "rmatch (Atom c 0 (Some (Suc 0)) True # as) t =
     (case t of [] \<Rightarrow> rmatch as []
      | x # xs \<Rightarrow>
          if c x then (case rmatch as xs of Some y \<Rightarrow> Some y | None \<Rightarrow> rmatch as (x # xs))
          else rmatch as (x # xs))"
  by (cases t) (simp_all add: rmatch.simps(2) split: option.split)

lemma rmatch_stop:
  assumes "\<And>a. a \<in> set p \<Longrightarrow> \<not> accepts a x"
  shows "rmatch p (u @ x # v) = map_option (\<lambda>t. t @ x # v) (rmatch p u)"
  using assms
proof (induction p arbitrary: u)
  case Nil
  then show ?case by simp
next
  case (Cons a as)
  obtain c lo hi g where a: "a = Atom c lo hi g" by (cases a)
  then have nc: "\<not> c x" using Cons.prems [of a] by simp
  have tw: "takeWhile c (u @ x # v) = takeWhile c u" using nc by (rule takeWhile_tail)
  then have sp: "span_len c hi (u @ x # v) = span_len c hi u" by (cases hi) simp_all
  have IH: "rmatch as (t @ x # v) = map_option (\<lambda>t. t @ x # v) (rmatch as t)" for t
    by (rule Cons.IH) (simp add: Cons.prems)
  have dr: "drops_up lo d (u @ x # v) = map (\<lambda>t. t @ x # v) (drops_up lo d u)"
    if "lo + d \<le> length u" for d
    using that by (simp add: drops_up_eq del: upt_Suc)
  have fs: "first_some (rmatch as) (map (\<lambda>t. t @ x # v) ts) =
              map_option (\<lambda>t. t @ x # v) (first_some (rmatch as) ts)" for ts
    by (induction ts) (simp_all add: IH split: option.split)
  have le: "span_len c hi u \<le> length u"
    using span_len_le [of c hi u] length_takeWhile_le [of c u] by simp
  show ?case
  proof (cases "span_len c hi u < lo")
    case True
    then show ?thesis using a sp by (simp add: rmatch.simps(2))
  next
    case False
    then have "lo + (span_len c hi u - lo) \<le> length u" using le by simp
    then have "cands a (u @ x # v) = map (\<lambda>t. t @ x # v) (cands a u)"
      using a sp False by (simp add: dr rev_map Let_def)
    then show ?thesis by (simp add: rmatch.simps(2) fs)
  qed
qed

lemma ws_facts: "\<not> is_ws SLASH" "\<not> is_ws GT" "\<not> is_ws LT" "is_ws NL"
  by (simp_all add: is_ws_def char_defs)

lemma rmatch_br_tail:
  assumes "\<forall>x\<in>set ws. is_ws x" "sl = [] \<or> sl = [SLASH]"
  shows "rmatch ([Atom is_ws 0 None True, Atom (chr_i SLASH) 0 (Some 1) True] @ lit_i ''>'')
           (ws @ sl @ GT # post) = Some post"
proof -
  let ?as = "[Atom (chr_i SLASH) 0 (Some 1) True, once (chr_i GT)]"
  have stop: "rmatch ?as t = None" if "t \<noteq> []" "is_ws (hd t)" for t
    using that by (cases t) (auto simp: rmatch_optional rmatch_once chr_i_simps ws_facts)
  have "\<not> is_ws (hd (sl @ GT # post))" using assms(2) by (auto simp: ws_facts)
  then have dw: "dropWhile is_ws (ws @ sl @ GT # post) = sl @ GT # post"
    using assms(1) by (cases "sl @ GT # post") (simp_all add: dropWhile_append2)
  have m: "rmatch ?as (sl @ GT # post) = Some post"
    using assms(2) by (auto simp: rmatch_optional rmatch_once chr_i_num char_defs)
  have l: "lit_i ''>'' = [once (chr_i GT)]" by (simp add: lit_i_def char_defs)
  have g: "rmatch (Atom is_ws 0 None True # ?as) s =
             (if 0 \<le> length (takeWhile is_ws s) then rmatch ?as (dropWhile is_ws s) else None)"
    for s by (rule rmatch_greedy_then) (rule stop)
  have "rmatch (Atom is_ws 0 None True # ?as) (ws @ sl @ GT # post) =
          rmatch ?as (dropWhile is_ws (ws @ sl @ GT # post))"
    by (simp only: g le0 if_True)
  also have "\<dots> = Some post" by (simp only: dw m)
  finally show ?thesis by (simp only: l append_Cons append_Nil)
qed

lemma rmatch_re_br:
  assumes "same_i ''<br'' opn" "\<forall>x\<in>set ws. is_ws x" "sl = [] \<or> sl = [SLASH]"
  shows "rmatch re_br (opn @ ws @ sl @ GT # post) = Some post"
  unfolding re_br_def using rmatch_br_tail [OF assms(2,3)]
  by (simp add: rmatch_lit_i [OF assms(1)])

lemma same_i_lt:
  assumes "same_i (CHR ''<'' # w) t"
  obtains t' where "t = LT # t'" "same_i w t'"
  using assms by (auto simp: same_i_def list_all2_Cons1 chr_i_num char_defs)

lemma rmatch_re_br_stop:
  assumes "u \<noteq> []"
  shows "rmatch re_br (u @ LT # v) = map_option (\<lambda>t. t @ LT # v) (rmatch re_br u)"
proof -
  obtain y u' where u: "u = y # u'" using assms by (cases u) auto
  let ?p = "lit_i ''br'' @ [Atom is_ws 0 None True, Atom (chr_i SLASH) 0 (Some 1) True] @ lit_i ''>''"
  have p: "re_br = once (chr_i LT) # ?p"
    by (simp add: re_br_def lit_i_def char_defs)
  have "rmatch ?p (u' @ LT # v) = map_option (\<lambda>t. t @ LT # v) (rmatch ?p u')"
    by (rule rmatch_stop)
       (auto simp: lit_i_def once_def chr_i_def canonicalize_def char_defs ws_facts [unfolded char_defs])
  then show ?thesis unfolding p u by (simp add: rmatch_once)
qed

lemma rmatch_lit_i_starts:
  "rmatch (lit_i w @ as) s = (if starts_i w s then rmatch as (drop (length w) s) else None)"
proof (induction w s rule: starts_i.induct)
  case (1 s)
  then show ?case by (simp add: lit_i_def)
next
  case (2 c w)
  then show ?case by (simp add: lit_i_def rmatch_once)
next
  case (3 c w x s)
  then show ?case by (simp add: lit_i_def rmatch_once)
qed








section \<open>Joining and trimming\<close>

lemma join_loop_pos: "0 < k \<Longrightarrow> join_loop sep R k xs = R @ concat (map ((@) sep) xs)"
  by (induction xs arbitrary: R k) simp_all

lemma sep_concat_Cons: "sep_concat sep (x # xs) = x @ concat (map ((@) sep) xs)"
  by (induction xs arbitrary: x) simp_all

lemma array_join_sep_concat: "array_join sep xs = sep_concat sep xs"
proof (cases xs)
  case Nil
  then show ?thesis by (simp add: array_join_def)
next
  case (Cons x ys)
  have "array_join sep (x # ys) = join_loop sep x (Suc 0) ys"
    by (simp add: array_join_def)
  also have "\<dots> = x @ concat (map ((@) sep) ys)"
    by (rule join_loop_pos) simp
  finally show ?thesis
    using Cons by (simp add: sep_concat_Cons)
qed

lemma trim_Nil: "trim [] = []"
  by (simp add: trim_def)

lemma trim_fixed:
  assumes "s \<noteq> []" "\<not> is_ws (hd s)" "\<not> is_ws (last s)"
  shows "trim s = s"
proof -
  have a: "dropWhile is_ws s = s"
    using assms(1,2) by (cases s) simp_all
  have "rev s \<noteq> []" "\<not> is_ws (hd (rev s))"
    using assms(1,3) by (simp_all add: hd_rev)
  then have "dropWhile is_ws (rev s) = rev s"
    by (cases "rev s") simp_all
  with a show ?thesis by (simp add: trim_def)
qed

lemma trim_ends:
  assumes "trim s \<noteq> []"
  shows "\<not> is_ws (hd (trim s))" and "\<not> is_ws (last (trim s))"
proof -
  let ?u = "dropWhile is_ws s"
  let ?d = "dropWhile is_ws (rev ?u)"
  have d: "?d \<noteq> []" using assms by (simp add: trim_def)
  then have "\<not> is_ws (hd ?d)" by (rule hd_dropWhile)
  then show "\<not> is_ws (last (trim s))"
    using d by (simp add: trim_def last_rev)
  have "?u = rev (takeWhile is_ws (rev ?u) @ ?d)"
    by (simp only: takeWhile_dropWhile_id rev_rev_ident)
  then have u: "?u = trim s @ rev (takeWhile is_ws (rev ?u))"
    by (simp only: rev_append trim_def)
  have "?u \<noteq> []"
  proof
    assume "?u = []"
    then have "trim s = []" by (simp only: trim_def rev.simps dropWhile.simps)
    with assms show False by simp
  qed
  then have "\<not> is_ws (hd ?u)" by (rule hd_dropWhile)
  moreover have "hd ?u = hd (trim s)"
    using u assms by (metis hd_append2)
  ultimately show "\<not> is_ws (hd (trim s))" by simp
qed

lemma trim_idem: "trim (trim s) = trim s"
proof (cases "trim s = []")
  case True
  then show ?thesis by (simp add: trim_Nil)
next
  case False
  then show ?thesis by (intro trim_fixed trim_ends)
qed

lemma split_paragraphs_elem:
  "p \<in> set (split_paragraphs s) \<Longrightarrow> p \<noteq> [] \<and> trim p = p"
  by (auto simp: split_paragraphs_def trim_idem)

lemma htmlToParagraphs_elem:
  "p \<in> set (htmlToParagraphs arg) \<Longrightarrow> p \<noteq> [] \<and> trim p = p"
  by (auto simp: htmlToParagraphs_def Let_def dest: split_paragraphs_elem split: if_splits)

section \<open>Normalizing text that is already normalized\<close>

subsection \<open>What the whitespace stage and the split guarantee\<close>

lemma set_replace_g: "set (replace_g p r s) \<subseteq> set s \<union> set r"
proof (induction p r s rule: replace_g.induct)
  case (1 p r)
  then show ?case by (auto split: option.split)
next
  case (2 p r c cs)
  show ?case
  proof (cases "rmatch p (c # cs)")
    case None
    then show ?thesis using "2.IH"(1) by auto
  next
    case (Some rest)
    then have "set rest \<subseteq> set (c # cs)" by (intro set_mono_suffix rmatch_suffix)
    then show ?thesis using Some "2.IH"(2,3)
      by (cases "length rest < length (c # cs)") auto
  qed
qed

lemma replace_g_single_gone:
  assumes "x \<notin> set r"
  shows "x \<notin> set (replace_g [once (chr x)] r s)"
proof (induction s)
  case Nil
  then show ?case by (simp add: rmatch_once)
next
  case (Cons c cs)
  then show ?case using assms by (simp add: rmatch_once chr_def)
qed

lemma run_match:
  "rmatch [Atom (chr x) n None True] s =
     (if n \<le> length (takeWhile (chr x) s) then Some (dropWhile (chr x) s) else None)"
  by (rule rmatch_greedy_last)

lemma prefix_single: "prefix [x] s \<longleftrightarrow> (\<exists>t. s = x # t)"
  by (cases s) auto

lemma dropWhile_not_prefix: "\<not> prefix [x] (dropWhile (chr x) s)"
proof
  assume "prefix [x] (dropWhile (chr x) s)"
  then obtain t where t: "dropWhile (chr x) s = x # t" by (auto simp: prefix_single)
  then have "dropWhile (chr x) s \<noteq> []" by simp
  then have "\<not> chr x (hd (dropWhile (chr x) s))" by (rule hd_dropWhile)
  with t show False by (simp add: chr_def)
qed

lemma run_short:
  assumes "\<not> n \<le> length (takeWhile (chr x) (x # cs))" "n \<le> 2"
  shows "\<not> prefix [x] cs"
proof
  assume "prefix [x] cs"
  then obtain t where "cs = x # t" by (auto simp: prefix_single)
  then have "2 \<le> length (takeWhile (chr x) (x # cs))" by (simp add: chr_def)
  with assms show False by simp
qed

lemma run_rest_shorter:
  assumes "n \<le> length (takeWhile (chr x) s)" "0 < n"
  shows "length (dropWhile (chr x) s) < length s"
proof -
  have "length s = length (takeWhile (chr x) s) + length (dropWhile (chr x) s)"
    by (metis length_append takeWhile_dropWhile_id)
  then show ?thesis using assms by linarith
qed

lemma replace_g_run_step:
  assumes "0 < n"
  shows "replace_g [Atom (chr x) n None True] r (c # cs) =
           (if n \<le> length (takeWhile (chr x) (c # cs))
            then r @ replace_g [Atom (chr x) n None True] r (dropWhile (chr x) (c # cs))
            else c # replace_g [Atom (chr x) n None True] r cs)"
  using run_rest_shorter [OF _ assms, of x "c # cs"]
  by (simp add: run_match del: takeWhile.simps dropWhile.simps)

lemma collapse_no_pair:
  "\<not> sublist [x, x] (replace_g [Atom (chr x) 2 None True] [x] s) \<and>
   (\<not> prefix [x] s \<longrightarrow> \<not> prefix [x] (replace_g [Atom (chr x) 2 None True] [x] s))"
proof (induction "length s" arbitrary: s rule: less_induct)
  case less
  let ?R = "replace_g [Atom (chr x) 2 None True] [x]"
  show ?case
  proof (cases s)
    case Nil
    then show ?thesis by (simp add: run_match)
  next
    case (Cons c cs)
    show ?thesis
    proof (cases "2 \<le> length (takeWhile (chr x) (c # cs))")
      case True
      define rest where "rest = dropWhile (chr x) (c # cs)"
      have R: "?R s = x # ?R rest"
        unfolding Cons rest_def using True by (simp only: replace_g_run_step) simp
      have "length rest < length s"
        unfolding rest_def using True Cons run_rest_shorter [of 2 x s] by simp
      moreover have "\<not> prefix [x] rest" unfolding rest_def by (rule dropWhile_not_prefix)
      ultimately have IH: "\<not> sublist [x, x] (?R rest)" "\<not> prefix [x] (?R rest)"
        using less [of rest] by simp_all
      have "c = x" using True by (cases "c = x") (simp_all add: chr_def)
      then have "prefix [x] s" using Cons by simp
      then show ?thesis using IH unfolding R by (simp add: sublist_Cons_right)
    next
      case False
      have R: "?R s = c # ?R cs"
        unfolding Cons using False by (simp only: replace_g_run_step) simp
      have IH: "\<not> sublist [x, x] (?R cs)" "\<not> prefix [x] cs \<longrightarrow> \<not> prefix [x] (?R cs)"
        using less [of cs] Cons by simp_all
      have "c = x \<Longrightarrow> \<not> prefix [x] cs" using False run_short [of 2 x cs] by simp
      moreover have "prefix [x] s \<longleftrightarrow> c = x" using Cons by auto
      ultimately show ?thesis using IH unfolding R by (auto simp: sublist_Cons_right)
    qed
  qed
qed

lemma sublist_pair_skip: "y \<notin> set r \<Longrightarrow> sublist [y, y] (r @ l) \<longleftrightarrow> sublist [y, y] l"
  by (induction r) (auto simp: sublist_Cons_right)

lemma run_replace_keeps_no_pair:
  assumes "0 < n" "r \<noteq> []" "y \<notin> set r" "y \<noteq> x"
  shows "(\<not> sublist [y, y] s \<longrightarrow> \<not> sublist [y, y] (replace_g [Atom (chr x) n None True] r s)) \<and>
         (\<not> prefix [y] s \<longrightarrow> \<not> prefix [y] (replace_g [Atom (chr x) n None True] r s))"
proof (induction "length s" arbitrary: s rule: less_induct)
  case less
  let ?R = "replace_g [Atom (chr x) n None True] r"
  show ?case
  proof (cases s)
    case Nil
    then show ?thesis using assms(1) by (simp add: run_match)
  next
    case (Cons c cs)
    show ?thesis
    proof (cases "n \<le> length (takeWhile (chr x) (c # cs))")
      case True
      define rest where "rest = dropWhile (chr x) (c # cs)"
      have R: "?R s = r @ ?R rest"
        unfolding Cons rest_def using True assms(1) by (simp only: replace_g_run_step) simp
      have "length rest < length s"
        unfolding rest_def using True Cons run_rest_shorter [of n x s] assms(1) by simp
      then have IH: "\<not> sublist [y, y] rest \<longrightarrow> \<not> sublist [y, y] (?R rest)"
        using less [of rest] by simp
      have "sublist rest s" unfolding Cons rest_def by (rule sublist_dropWhile)
      then have "sublist [y, y] rest \<Longrightarrow> sublist [y, y] s"
        by (rule sublist_order.order.trans [rotated])
      moreover obtain a r' where "r = a # r'" using assms(2) by (cases r) auto
      then have "\<not> prefix [y] (r @ ?R rest)" using assms(3) by auto
      ultimately show ?thesis using IH assms(3) unfolding R by (auto simp: sublist_pair_skip)
    next
      case False
      have R: "?R s = c # ?R cs"
        unfolding Cons using False assms(1) by (simp only: replace_g_run_step) simp
      have IH: "\<not> sublist [y, y] cs \<longrightarrow> \<not> sublist [y, y] (?R cs)"
        "\<not> prefix [y] cs \<longrightarrow> \<not> prefix [y] (?R cs)"
        using less [of cs] Cons by simp_all
      have "sublist [y, y] s \<longleftrightarrow> (c = y \<and> prefix [y] cs) \<or> sublist [y, y] cs"
        "prefix [y] s \<longleftrightarrow> c = y"
        using Cons by (auto simp: sublist_Cons_right)
      then show ?thesis using IH unfolding R by (auto simp: sublist_Cons_right)
    qed
  qed
qed

lemma sublist_trim: "sublist (trim s) s"
proof -
  let ?u = "dropWhile is_ws s"
  have "suffix (dropWhile is_ws (rev ?u)) (rev ?u)" by (rule suffix_dropWhile)
  then have "prefix (trim s) ?u" by (simp add: suffix_to_prefix trim_def)
  then have "sublist (trim s) ?u" by (rule prefix_imp_sublist)
  moreover have "sublist ?u s" by (rule sublist_dropWhile)
  ultimately show ?thesis by (rule sublist_order.order.trans)
qed

lemma split_loop_sublist:
  "q \<in> set (split_loop p acc s) \<Longrightarrow> sublist q (rev acc @ s)"
proof (induction p acc s rule: split_loop.induct)
  case (1 p acc)
  then show ?case by simp
next
  case (2 p acc c cs)
  show ?case
  proof (cases "rmatch p (c # cs)")
    case None
    then show ?thesis using "2.IH"(1) "2.prems" by simp
  next
    case (Some rest)
    then have "suffix rest (c # cs)" by (rule rmatch_suffix)
    then have suf: "suffix rest (rev acc @ c # cs)" by (rule suffix_appendI)
    have pre: "sublist (rev acc) (rev acc @ c # cs)" by simp
    show ?thesis
    proof (cases "length rest < length (c # cs)")
      case True
      then have "q = rev acc \<or> q \<in> set (split_loop p [] rest)"
        using Some "2.prems" by simp
      then show ?thesis
      proof
        assume "q = rev acc" then show ?thesis using pre by simp
      next
        assume "q \<in> set (split_loop p [] rest)"
        then have "sublist q rest" using "2.IH"(2) [OF Some True] by simp
        moreover have "sublist rest (rev acc @ c # cs)" using suf by (rule suffix_imp_sublist)
        ultimately show ?thesis by (rule sublist_order.order.trans)
      qed
    next
      case False
      show ?thesis
      proof (cases "acc = []")
        case True
        then show ?thesis using Some False "2.IH"(3) "2.prems" by simp
      next
        case nonempty: False
        then have "q = rev acc \<or> q \<in> set (split_loop p [c] cs)"
          using Some False "2.prems" by simp
        then show ?thesis
        proof
          assume "q = rev acc" then show ?thesis using pre by simp
        next
          assume "q \<in> set (split_loop p [c] cs)"
          then have "sublist q (c # cs)" using "2.IH"(4) [OF Some False nonempty] by simp
          moreover have "sublist (c # cs) (rev acc @ c # cs)" by simp
          ultimately show ?thesis by (rule sublist_order.order.trans)
        qed
      qed
    qed
  qed
qed

lemma split_loop_run_step:
  "split_loop [Atom (chr x) 2 None True] acc (c # cs) =
     (if 2 \<le> length (takeWhile (chr x) (c # cs))
      then rev acc # split_loop [Atom (chr x) 2 None True] [] (dropWhile (chr x) (c # cs))
      else split_loop [Atom (chr x) 2 None True] (c # acc) cs)"
  using run_rest_shorter [of 2 x "c # cs"]
  by (simp add: run_match del: takeWhile.simps dropWhile.simps)

lemma split_loop_no_pair:
  assumes "q \<in> set (split_loop [Atom (chr x) 2 None True] acc s)"
    "\<not> sublist [x, x] acc" "\<not> (prefix [x] acc \<and> prefix [x] s)"
  shows "\<not> sublist [x, x] q"
  using assms
proof (induction "length s" arbitrary: s acc rule: less_induct)
  case less
  let ?S = "split_loop [Atom (chr x) 2 None True]"
  have racc: "\<not> sublist [x, x] (rev acc)"
    using less.prems(2) sublist_rev [of "[x, x]" acc] by simp
  show ?case
  proof (cases s)
    case Nil
    then show ?thesis using less.prems(1) racc by simp
  next
    case (Cons c cs)
    show ?thesis
    proof (cases "2 \<le> length (takeWhile (chr x) (c # cs))")
      case True
      define rest where "rest = dropWhile (chr x) (c # cs)"
      have S: "?S acc s = rev acc # ?S [] rest"
        unfolding Cons rest_def using True by (simp only: split_loop_run_step if_True)
      have len: "length rest < length s"
        unfolding rest_def using True Cons run_rest_shorter [of 2 x s] by simp
      from less.prems(1) have "q = rev acc \<or> q \<in> set (?S [] rest)" unfolding S by simp
      then show ?thesis
      proof
        assume "q = rev acc" then show ?thesis using racc by simp
      next
        assume "q \<in> set (?S [] rest)"
        then show ?thesis using less.hyps [of rest "[]"] len by simp
      qed
    next
      case False
      have S: "?S acc s = ?S (c # acc) cs"
        unfolding Cons using False by (simp only: split_loop_run_step if_False)
      have a: "c = x \<Longrightarrow> \<not> prefix [x] cs" using False run_short [of 2 x cs] by simp
      have b: "c = x \<Longrightarrow> \<not> prefix [x] acc" using less.prems(3) Cons by auto
      have "q \<in> set (?S (c # acc) cs)" using less.prems(1) unfolding S .
      moreover have "length cs < length s" using Cons by simp
      moreover have "\<not> sublist [x, x] (c # acc)"
        using less.prems(2) b by (auto simp: sublist_Cons_right)
      moreover have "\<not> (prefix [x] (c # acc) \<and> prefix [x] cs)" using a by auto
      ultimately show ?thesis using less.hyps [of cs "c # acc"] by blast
    qed
  qed
qed

lemma normalize_ws_props:
  "CR \<notin> set (normalize_ws s)" "TAB \<notin> set (normalize_ws s)"
  "\<not> sublist [SP, SP] (normalize_ws s)"
proof -
  define a where "a = replace_g re_cr [] s"
  define b where "b = replace_g re_tab (js '' '') a"
  define c where "c = replace_g re_spaces (js '' '') b"
  define d where "d = replace_g re_nl3 [NL, NL] c"
  have sp: "js '' '' = [SP]" by (simp add: js_def SP_def)
  have w: "normalize_ws s = trim d"
    by (simp add: normalize_ws_def Let_def a_def b_def c_def d_def)
  have a: "CR \<notin> set a" unfolding a_def re_cr_def by (rule replace_g_single_gone) simp
  have "set b \<subseteq> set a \<union> set [SP]" unfolding b_def sp by (rule set_replace_g)
  moreover have "TAB \<notin> set b" unfolding b_def re_tab_def sp
    by (rule replace_g_single_gone) (simp add: char_defs)
  ultimately have b: "CR \<notin> set b" "TAB \<notin> set b" using a by (auto simp: char_defs)
  have "set c \<subseteq> set b \<union> set [SP]" unfolding c_def sp by (rule set_replace_g)
  then have c: "CR \<notin> set c" "TAB \<notin> set c" using b by (auto simp: char_defs)
  have c2: "\<not> sublist [SP, SP] c" unfolding c_def re_spaces_def sp
    using collapse_no_pair [of SP b] by simp
  have "set d \<subseteq> set c \<union> set [NL, NL]" unfolding d_def by (rule set_replace_g)
  then have d: "CR \<notin> set d" "TAB \<notin> set d" using c by (auto simp: char_defs)
  have d2: "\<not> sublist [SP, SP] d" unfolding d_def re_nl3_def
    using run_replace_keeps_no_pair [of 3 "[NL, NL]" SP NL c] c2 by (simp add: char_defs)
  have t: "sublist (trim d) d" by (rule sublist_trim)
  then have "set (trim d) \<subseteq> set d" by (rule set_mono_sublist)
  then show "CR \<notin> set (normalize_ws s)" "TAB \<notin> set (normalize_ws s)"
    unfolding w using d by auto
  show "\<not> sublist [SP, SP] (normalize_ws s)" unfolding w
    using d2 t by (auto dest: sublist_order.order.trans)
qed

lemma split_paragraphs_clean:
  assumes "CR \<notin> set w" "TAB \<notin> set w" "\<not> sublist [SP, SP] w" "p \<in> set (split_paragraphs w)"
  shows "clean p"
proof -
  from assms(4) obtain q where q: "q \<in> set (split_re re_nl2 w)" "p = trim q" "p \<noteq> []"
    by (auto simp: split_paragraphs_def)
  have qw: "sublist q w \<and> \<not> sublist [NL, NL] q"
  proof (cases "w = []")
    case True
    then have "q = []" using q(1) by (simp add: split_re_def re_nl2_def run_match)
    then show ?thesis by simp
  next
    case False
    then have m: "q \<in> set (split_loop re_nl2 [] w)" using q(1) by (simp add: split_re_def)
    then have "sublist q (rev [] @ w)" by (rule split_loop_sublist)
    moreover have "\<not> sublist [NL, NL] q"
      using m unfolding re_nl2_def by (rule split_loop_no_pair) simp_all
    ultimately show ?thesis by simp
  qed
  have pq: "sublist p q" unfolding q(2) by (rule sublist_trim)
  then have pw: "sublist p w" using qw by (auto dest: sublist_order.order.trans)
  then have "set p \<subseteq> set w" by (rule set_mono_sublist)
  then have "CR \<notin> set p" "TAB \<notin> set p" using assms(1,2) by auto
  moreover have "\<not> sublist [SP, SP] p" using pw assms(3) by (auto dest: sublist_order.order.trans)
  moreover have "\<not> sublist [NL, NL] p" using pq qw by (auto dest: sublist_order.order.trans)
  moreover have "\<not> is_ws (hd p)" "\<not> is_ws (last p)"
    using q(2,3) trim_ends [of q] by simp_all
  ultimately show ?thesis using q(3) by (simp add: clean_def)
qed

lemma htmlToParagraphs_clean:
  assumes "p \<in> set (htmlToParagraphs arg)"
  shows "clean p"
proof -
  from assms obtain w where "p \<in> set (split_paragraphs (normalize_ws w))"
    by (auto simp: htmlToParagraphs_def Let_def split: if_splits)
  with normalize_ws_props [of w] show ?thesis by (intro split_paragraphs_clean)
qed

subsection \<open>The second run over the joined paragraphs\<close>

lemma run_at_most_one:
  assumes "u \<noteq> []" "last u \<noteq> x" "\<not> sublist [x, x] u"
  shows "length (takeWhile (chr x) (u @ v)) \<le> 1"
proof (cases u)
  case Nil
  then show ?thesis using assms(1) by simp
next
  case (Cons a u')
  show ?thesis
  proof (cases u')
    case Nil
    then show ?thesis using Cons assms(2) by (simp add: chr_def)
  next
    case (Cons b u'')
    then have "\<not> (a = x \<and> b = x)" using assms(3) \<open>u = a # u'\<close> by (auto simp: sublist_Cons_right)
    then show ?thesis using Cons \<open>u = a # u'\<close> by (simp add: chr_def)
  qed
qed

lemma no_run_in_clean:
  assumes "clean p" "is_ws x" "\<not> sublist [x, x] p" "2 \<le> n" "k < length p"
  shows "rmatch [Atom (chr x) n None True] (drop k p @ v) = None"
proof -
  have "last (drop k p) \<noteq> x" using assms(1,2,5) by (auto simp: clean_def)
  moreover have "\<not> sublist [x, x] (drop k p)"
    using assms(3) sublist_drop [of k p] by (auto dest: sublist_order.order.trans)
  moreover have "drop k p \<noteq> []" using assms(5) by simp
  ultimately have "length (takeWhile (chr x) (drop k p @ v)) \<le> 1" by (intro run_at_most_one)
  then show ?thesis using assms(4) by (simp add: run_match)
qed

lemma replace_g_over_clean:
  assumes "clean p" "is_ws x" "\<not> sublist [x, x] p" "2 \<le> n"
  shows "replace_g [Atom (chr x) n None True] r (p @ v) = p @ replace_g [Atom (chr x) n None True] r v"
  by (rule replace_g_skip) (rule no_run_in_clean [OF assms])

lemma split_loop_skip:
  assumes "\<And>k. k < length u \<Longrightarrow> rmatch p (drop k u @ v) = None"
  shows "split_loop p acc (u @ v) = split_loop p (rev u @ acc) v"
  using assms
proof (induction u arbitrary: acc)
  case Nil
  then show ?case by simp
next
  case (Cons c cs)
  have "rmatch p (c # cs @ v) = None" using Cons.prems [of 0] by simp
  moreover have "split_loop p (c # acc) (cs @ v) = split_loop p (rev cs @ c # acc) v"
  proof (rule Cons.IH)
    fix k assume "k < length cs"
    then show "rmatch p (drop k cs @ v) = None" using Cons.prems [of "Suc k"] by simp
  qed
  ultimately show ?case by simp
qed

lemma sep_concat_ends:
  assumes "ps \<noteq> []" "\<And>p. p \<in> set ps \<Longrightarrow> clean p"
  shows "sep_concat [NL, NL] ps \<noteq> [] \<and> hd (sep_concat [NL, NL] ps) = hd (hd ps) \<and>
         last (sep_concat [NL, NL] ps) = last (last ps)"
  using assms
proof (induction "[NL, NL]" ps rule: sep_concat.induct)
  case 1
  then show ?case by simp
next
  case (2 x)
  then show ?case by (simp add: clean_def)
next
  case (3 x y ys)
  then show ?case by (simp add: clean_def)
qed

lemma set_sep_concat: "set (sep_concat [NL, NL] ps) \<subseteq> \<Union> (set ` set ps) \<union> {NL}"
  by (induction "[NL, NL]" ps rule: sep_concat.induct) auto

lemma sep_concat_not_nl:
  assumes "\<And>p. p \<in> set ps \<Longrightarrow> clean p"
  shows "\<not> prefix [NL] (sep_concat [NL, NL] ps)"
proof (cases "ps = []")
  case True
  then show ?thesis by simp
next
  case False
  then have e: "sep_concat [NL, NL] ps \<noteq> []" "hd (sep_concat [NL, NL] ps) = hd (hd ps)"
    using sep_concat_ends [OF False assms] by simp_all
  have "clean (hd ps)" using False by (intro assms) simp
  then have "\<not> is_ws (hd (hd ps))" by (simp add: clean_def)
  then have "hd (sep_concat [NL, NL] ps) \<noteq> NL" using e(2) by (auto simp: ws_facts)
  then show ?thesis using e(1) by (auto simp: prefix_single)
qed

lemma separator_kept:
  assumes "\<not> prefix [NL] v" "2 \<le> n" "x = NL \<longrightarrow> 3 \<le> n"
  shows "replace_g [Atom (chr x) n None True] r (NL # NL # v) =
           NL # NL # replace_g [Atom (chr x) n None True] r v"
proof -
  have v: "takeWhile (chr NL) v = []" using assms(1) by (cases v) (auto simp: chr_def)
  have "length (takeWhile (chr x) (NL # NL # v)) < n" "length (takeWhile (chr x) (NL # v)) < n"
    using assms(2,3) v by (auto simp: chr_def)
  then show ?thesis using assms(2)
    by (simp add: replace_g_run_step del: takeWhile.simps replace_g.simps)
qed

lemma replace_g_joined:
  assumes "\<And>p. p \<in> set ps \<Longrightarrow> clean p" "is_ws x" "\<And>p. p \<in> set ps \<Longrightarrow> \<not> sublist [x, x] p"
    "2 \<le> n" "x = NL \<longrightarrow> 3 \<le> n"
  shows "replace_g [Atom (chr x) n None True] r (sep_concat [NL, NL] ps) = sep_concat [NL, NL] ps"
  using assms(1,3)
proof (induction "[NL, NL]" ps rule: sep_concat.induct)
  case 1
  then show ?case using assms(4) by (simp add: run_match)
next
  case (2 p)
  have "replace_g [Atom (chr x) n None True] r (p @ []) = p @ replace_g [Atom (chr x) n None True] r []"
    by (rule replace_g_over_clean) (use 2 assms(2,4) in simp_all)
  then show ?case using assms(4) by (simp add: run_match)
next
  case (3 p q qs)
  let ?R = "replace_g [Atom (chr x) n None True] r"
  let ?t = "sep_concat [NL, NL] (q # qs)"
  have IH: "?R ?t = ?t" by (rule 3(1)) (use 3(2,3) in simp_all)
  have nl: "\<not> prefix [NL] ?t" by (rule sep_concat_not_nl) (use 3(2) in simp)
  have "?R (p @ NL # NL # ?t) = p @ ?R (NL # NL # ?t)"
    by (rule replace_g_over_clean) (use 3(2,3) assms(2,4) in simp_all)
  also have "?R (NL # NL # ?t) = NL # NL # ?R ?t"
    using nl assms(4,5) by (rule separator_kept)
  finally show ?case using IH by simp
qed

lemma split_joined:
  assumes "ps \<noteq> []" "\<And>p. p \<in> set ps \<Longrightarrow> clean p"
  shows "split_loop re_nl2 [] (sep_concat [NL, NL] ps) = ps"
  using assms
proof (induction "[NL, NL]" ps rule: sep_concat.induct)
  case 1
  then show ?case by simp
next
  case (2 p)
  have "split_loop re_nl2 [] (p @ []) = split_loop re_nl2 (rev p @ []) []"
    unfolding re_nl2_def
    by (rule split_loop_skip, rule no_run_in_clean) (use 2 in \<open>simp_all add: clean_def ws_facts\<close>)
  then show ?case by simp
next
  case (3 p q qs)
  let ?t = "sep_concat [NL, NL] (q # qs)"
  have IH: "split_loop re_nl2 [] ?t = q # qs" by (rule 3(1)) (use 3(3) in simp_all)
  have nl: "\<not> prefix [NL] ?t" by (rule sep_concat_not_nl) (use 3(3) in simp)
  then have tw: "takeWhile (chr NL) ?t = []" "dropWhile (chr NL) ?t = ?t"
    by (cases ?t; auto simp: chr_def)+
  have "split_loop re_nl2 [] (p @ NL # NL # ?t) = split_loop re_nl2 (rev p @ []) (NL # NL # ?t)"
    unfolding re_nl2_def
    by (rule split_loop_skip, rule no_run_in_clean) (use 3(3) in \<open>simp_all add: clean_def ws_facts\<close>)
  also have "\<dots> = p # split_loop re_nl2 [] ?t"
    unfolding re_nl2_def using tw
    by (simp add: split_loop_run_step chr_def del: split_loop.simps)
  finally show ?case using IH by simp
qed

lemma replace_g_lit_i_absent:
  assumes "\<And>x. x \<in> set s \<Longrightarrow> \<not> chr_i (of_char c) x"
  shows "replace_g (lit_i (c # w) @ as) r s = s"
  unfolding lit_i_def list.map append_Cons once_def
  by (rule replace_g_first_absent) (use assms in simp_all)

lemma decode_entities_id:
  assumes "AMP \<notin> set s"
  shows "decode_entities s = s"
proof -
  have "replace_g (lit_i (CHR ''&'' # w) @ []) r s = s" for w r
    by (rule replace_g_lit_i_absent) (use assms in \<open>auto simp: chr_i_num char_defs\<close>)
  then show ?thesis
    by (simp add: decode_entities_def re_nbsp_def re_amp_def re_apos_def re_quot_def re_lt_def
        re_gt_def)
qed

lemma lt_pass_id:
  assumes "LT \<notin> set s"
  shows "replace_g (lit_i (CHR ''<'' # w) @ as) r s = s"
  by (rule replace_g_lit_i_absent) (use assms in \<open>auto simp: chr_i_num char_defs\<close>)

lemma tag_stages_id:
  assumes "LT \<notin> set s"
  shows "remove_danger s = s" "block_boundaries s = s" "opening_tags s = s" "strip_tags s = s"
proof -
  note p = lt_pass_id [OF assms]
  show "remove_danger s = s"
    by (simp add: remove_danger_def re_script_def re_style_def p)
  show "block_boundaries s = s"
    by (simp add: block_boundaries_def re_br_def re_p_close_def re_div_close_def re_h_close_def p
        p [where as = "[]", simplified])
  show "opening_tags s = s"
    by (simp add: opening_tags_def re_p_open_def re_div_open_def re_h_open_def p)
  show "strip_tags s = s"
    unfolding strip_tags_def re_tag_def once_def
    by (rule replace_g_first_absent) (use assms in \<open>auto simp: chr_def\<close>)
qed

lemma remove_noise_id:
  assumes "HASH \<notin> set s" "AMP \<notin> set s"
  shows "remove_noise s = s"
proof -
  have "replace_g re_hash [] s = s"
    unfolding re_hash_def once_def
    by (rule replace_g_first_absent) (use assms(1) in \<open>auto simp: chr_def\<close>)
  moreover have "replace_g re_amps (js ''&'') s = s"
    unfolding re_amps_def
    by (rule replace_g_first_absent) (use assms(2) in \<open>auto simp: chr_def\<close>)
  ultimately show ?thesis by (simp add: remove_noise_def)
qed

lemma normalize_ws_joined:
  assumes "ps \<noteq> []" "\<And>p. p \<in> set ps \<Longrightarrow> clean p"
  shows "normalize_ws (sep_concat [NL, NL] ps) = sep_concat [NL, NL] ps"
proof -
  let ?t = "sep_concat [NL, NL] ps"
  have mem: "x \<in> set ?t \<Longrightarrow> x = NL \<or> (\<exists>p\<in>set ps. x \<in> set p)" for x
    using set_sep_concat [of ps] by auto
  have absent: "x \<notin> set ?t" if ne: "x \<noteq> NL" and cl: "\<forall>p. clean p \<longrightarrow> x \<notin> set p" for x
  proof
    assume "x \<in> set ?t"
    then have "x = NL \<or> (\<exists>p\<in>set ps. x \<in> set p)" by (rule mem)
    then obtain p where p: "p \<in> set ps" "x \<in> set p" using ne by blast
    then have "clean p" using assms(2) by blast
    with p(2) cl show False by blast
  qed
  have "CR \<notin> set ?t"
    by (rule absent) (simp_all add: clean_def char_defs)
  moreover have "TAB \<notin> set ?t"
    by (rule absent) (simp_all add: clean_def char_defs)
  ultimately have "CR \<notin> set ?t" "TAB \<notin> set ?t" .
  then have a: "replace_g re_cr [] ?t = ?t" and b: "replace_g re_tab (js '' '') ?t = ?t"
    unfolding re_cr_def re_tab_def once_def
    by (auto intro!: replace_g_first_absent simp: chr_def)
  have c: "replace_g re_spaces (js '' '') ?t = ?t"
    unfolding re_spaces_def
    by (rule replace_g_joined) (use assms(2) in \<open>simp_all add: clean_def is_ws_def char_defs\<close>)
  have d: "replace_g re_nl3 [NL, NL] ?t = ?t"
    unfolding re_nl3_def
    by (rule replace_g_joined) (use assms(2) in \<open>simp_all add: clean_def ws_facts\<close>)
  have e: "?t \<noteq> []" "hd ?t = hd (hd ps)" "last ?t = last (last ps)"
    using sep_concat_ends [OF assms] by simp_all
  have "clean (hd ps)" "clean (last ps)" using assms by simp_all
  then have "trim ?t = ?t" using e by (intro trim_fixed) (simp_all add: clean_def)
  then show ?thesis by (simp add: normalize_ws_def a b c d)
qed

lemma split_paragraphs_joined:
  assumes "ps \<noteq> []" "\<And>p. p \<in> set ps \<Longrightarrow> clean p"
  shows "split_paragraphs (sep_concat [NL, NL] ps) = ps"
proof -
  have "sep_concat [NL, NL] ps \<noteq> []" using sep_concat_ends [OF assms] by simp
  then have "split_re re_nl2 (sep_concat [NL, NL] ps) = ps"
    using split_joined [OF assms] by (simp add: split_re_def)
  moreover have "trim p = p" if "p \<in> set ps" for p
    using assms(2) [OF that] by (intro trim_fixed) (simp_all add: clean_def)
  then have "map trim ps = ps" by (simp add: map_idI)
  moreover have "filter (\<lambda>p. p \<noteq> []) ps = ps"
    using assms(2) by (auto simp: clean_def filter_id_conv)
  ultimately show ?thesis by (simp add: split_paragraphs_def)
qed

lemma markup_stages_id:
  assumes "AMP \<notin> set s" "LT \<notin> set s" "HASH \<notin> set s"
  shows "markup_stages s = s"
  using assms by (simp add: markup_stages_def decode_entities_id tag_stages_id remove_noise_id)

lemma renormalize_joined:
  assumes "\<And>p. p \<in> set ps \<Longrightarrow> clean p"
    and "markup_stages (sep_concat [NL, NL] ps) = sep_concat [NL, NL] ps"
  shows "htmlToParagraphs (Some (sep_concat [NL, NL] ps)) = ps"
proof (cases "ps = []")
  case True
  then show ?thesis by (simp add: htmlToParagraphs_def)
next
  case False
  let ?t = "sep_concat [NL, NL] ps"
  have ne: "?t \<noteq> []" using sep_concat_ends [OF False assms(1)] by simp
  have "htmlToParagraphs (Some ?t) = split_paragraphs (normalize_ws (markup_stages ?t))"
    using ne by (simp add: htmlToParagraphs_def markup_stages_def)
  then show ?thesis
    using assms(2) normalize_ws_joined [OF False assms(1)]
      split_paragraphs_joined [OF False assms(1)]
    by simp
qed

section \<open>The stages on a whole input\<close>

subsection \<open>Where a match ends, and text that no pass touches\<close>

lemma rmatch_ends_with:
  assumes "rmatch p s = Some rest" "p \<noteq> []" "last p = Atom c lo hi g" "0 < lo"
  shows "\<exists>m x. s = m @ x # rest \<and> c x"
  using assms(1,2,3)
proof (induction p arbitrary: s)
  case Nil
  then show ?case by simp
next
  case (Cons a as)
  obtain c' lo' hi' g' where a: "a = Atom c' lo' hi' g'" by (cases a)
  from Cons.prems(1) obtain t where t: "t \<in> set (cands a s)" "rmatch as t = Some rest"
    by (auto simp: rmatch.simps(2) dest: first_some_SomeD)
  from t(1) a have "t \<in> set (cands (Atom c' lo' hi' g') s)" by simp
  then obtain k where k: "lo' \<le> k" "k \<le> span_len c' hi' s" "t = drop k s"
    by (blast dest: cands_elem)
  show ?case
  proof (cases "as = []")
    case True
    then have r: "rest = drop k s" using t(2) k(3) by simp
    from True Cons.prems(3) a have eq: "c' = c" "lo' = lo" by simp_all
    have kl: "k \<le> length (takeWhile c s)" using k(2) span_len_le [of c' hi' s] eq by simp
    have k1: "0 < k" using k(1) eq assms(4) by simp
    then have lt: "k - 1 < length (takeWhile c s)" using kl by simp
    then have "k - 1 < length s" using length_takeWhile_le [of c s] by simp
    then have "s = take (k - 1) s @ s ! (k - 1) # drop (Suc (k - 1)) s"
      by (rule id_take_nth_drop)
    then have "s = take (k - 1) s @ s ! (k - 1) # rest" using k1 r by simp
    moreover have "takeWhile c s ! (k - 1) = s ! (k - 1)" using lt by (rule takeWhile_nth)
    then have "s ! (k - 1) \<in> set (takeWhile c s)" using lt by (metis nth_mem)
    then have "c (s ! (k - 1))" by (rule set_takeWhileD [THEN conjunct2])
    ultimately show ?thesis by blast
  next
    case False
    then have "last as = Atom c lo hi g" using Cons.prems(3) by simp
    with t(2) False obtain m x where "t = m @ x # rest" "c x"
      using Cons.IH by blast
    then have "s = (take k s @ m) @ x # rest" using k(3)
      by (metis append_assoc append_take_drop_id)
    then show ?thesis using \<open>c x\<close> by blast
  qed
qed

lemma replace_g_tail_kept:
  assumes "p \<noteq> []" "last p = Atom c lo hi g" "0 < lo" "\<And>x. x \<in> set v \<Longrightarrow> \<not> c x"
  shows "\<exists>X. replace_g p r (u @ v) = X @ v"
proof (induction "length u" arbitrary: u rule: less_induct)
  case less
  show ?case
  proof (cases u)
    case Nil
    have "Atom c lo hi g \<in> set p" using assms(1,2) by (metis last_in_set)
    then have "replace_g p r v = v" using assms(3,4) by (rule replace_g_needs)
    then show ?thesis using Nil by simp
  next
    case (Cons c0 cs)
    show ?thesis
    proof (cases "rmatch p (c0 # cs @ v)")
      case None
      obtain X where "replace_g p r (cs @ v) = X @ v" using less [of cs] Cons by auto
      then have "replace_g p r (u @ v) = (c0 # X) @ v" using None Cons by simp
      then show ?thesis by blast
    next
      case (Some rest)
      then obtain m x where mx: "c0 # cs @ v = m @ x # rest" "c x"
        using rmatch_ends_with [OF Some assms(1,2,3)] by blast
      then have "(c0 # cs) @ v = (m @ [x]) @ rest" by simp
      then have "\<exists>us. c0 # cs = (m @ [x]) @ us \<and> us @ v = rest \<or>
          (c0 # cs) @ us = m @ [x] \<and> v = us @ rest"
        by (simp only: append_eq_append_conv2)
      then obtain us where us: "c0 # cs = (m @ [x]) @ us \<and> us @ v = rest \<or>
          (c0 # cs) @ us = m @ [x] \<and> v = us @ rest" ..
      have "\<exists>w. c0 # cs = (m @ [x]) @ w \<and> rest = w @ v"
      proof (cases "us = []")
        case True
        then show ?thesis using us by auto
      next
        case False
        have "\<not> ((c0 # cs) @ us = m @ [x] \<and> v = us @ rest)"
        proof
          assume a: "(c0 # cs) @ us = m @ [x] \<and> v = us @ rest"
          then have "last ((c0 # cs) @ us) = x" by simp
          then have "last us = x" using False by simp
          then have "x \<in> set us" using False by (metis last_in_set)
          then have "x \<in> set v" using a by simp
          with assms(4) mx(2) show False by blast
        qed
        then show ?thesis using us by blast
      qed
      then obtain w where w: "c0 # cs = (m @ [x]) @ w" "rest = w @ v" by blast
      from w(1) have "length (c0 # cs) = length ((m @ [x]) @ w)" by (rule arg_cong)
      then have lw: "length w < length u" using Cons by simp
      then obtain X where X: "replace_g p r (w @ v) = X @ v" using less [of w] by auto
      have "length rest < length (c0 # cs @ v)" using w(2) lw Cons by simp
      then have "replace_g p r (u @ v) = r @ replace_g p r rest" using Some Cons by simp
      then have "replace_g p r (u @ v) = (r @ X) @ v" using X w(2) by simp
      then show ?thesis by blast
    qed
  qed
qed

lemma lit_i_rejects:
  assumes "\<And>c. c \<in> set w \<Longrightarrow> \<not> chr_i (of_char c) x" "a \<in> set (lit_i w)"
  shows "\<not> accepts a x"
  using assms by (auto simp: lit_i_def once_def)

lemma entity_pass_cut:
  assumes "\<And>c. c \<in> set (CHR ''&'' # w) \<Longrightarrow> \<not> chr_i (of_char c) x"
  shows "replace_g (lit_i (CHR ''&'' # w)) r (u @ x # v) =
           replace_g (lit_i (CHR ''&'' # w)) r u @ x # replace_g (lit_i (CHR ''&'' # w)) r v"
proof -
  let ?p = "lit_i (CHR ''&'' # w)"
  have first: "?p = Atom (chr_i (of_char CHR ''&'')) 1 (Some 1) True # lit_i w"
    by (simp add: lit_i_def once_def)
  have none: "rmatch ?p [] = None" unfolding first by (rule rmatch_first_fail) simp_all
  have nx: "rmatch ?p (x # v) = None" unfolding first
    by (rule rmatch_first_fail) (use assms [of "CHR ''&''"] in simp_all)
  have "replace_g ?p r (u @ x # v) = replace_g ?p r u @ replace_g ?p r (x # v)"
    using none
  proof (rule replace_g_append)
    fix u' :: jsstring
    show "rmatch ?p (u' @ x # v) = map_option (\<lambda>t. t @ x # v) (rmatch ?p u')"
      by (rule rmatch_stop) (rule lit_i_rejects [OF assms])
  qed
  then show ?thesis using nx by simp
qed

lemma amp_skip:
  assumes "AMP \<notin> set u"
  shows "replace_g (lit_i (CHR ''&'' # w)) r (u @ v) = u @ replace_g (lit_i (CHR ''&'' # w)) r v"
proof (rule replace_g_skip)
  fix k assume k: "k < length u"
  then obtain y ys where d: "drop k u = y # ys" by (cases "drop k u") auto
  then have "y \<in> set u" by (metis in_set_dropD list.set_intros(1))
  then have "y \<noteq> AMP" using assms by auto
  then have "\<not> chr_i (of_char CHR ''&'') y" by (simp add: chr_i_num char_defs)
  then show "rmatch (lit_i (CHR ''&'' # w)) (drop k u @ v) = None"
    unfolding d lit_i_def list.map once_def by (intro rmatch_first_fail) simp_all
qed

lemma decode_entities_prefix:
  assumes "AMP \<notin> set u"
  shows "decode_entities (u @ v) = u @ decode_entities v"
  by (simp add: decode_entities_def re_nbsp_def re_amp_def re_apos_def re_quot_def re_lt_def
      re_gt_def amp_skip [OF assms])

lemma decode_entities_cut:
  assumes "x = LT \<or> x = NL"
  shows "decode_entities (u @ x # v) = decode_entities u @ x # decode_entities v"
proof -
  have "replace_g (lit_i (CHR ''&'' # w)) r (u' @ x # v') =
          replace_g (lit_i (CHR ''&'' # w)) r u' @ x # replace_g (lit_i (CHR ''&'' # w)) r v'"
    if "w \<in> {''nbsp;'', ''amp;'', ''#39;'', ''quot;'', ''lt;'', ''gt;''}" for w r u' v'
    by (rule entity_pass_cut)
       (use that assms in \<open>auto simp: chr_i_def canonicalize_def char_defs\<close>)
  then show ?thesis
    by (simp add: decode_entities_def re_nbsp_def re_amp_def re_apos_def re_quot_def re_lt_def
        re_gt_def)
qed

lemma tag_pass_tail_kept:
  assumes "GT \<notin> set v"
    "p \<in> {re_script, re_style, re_br, re_p_close, re_div_close, re_h_close,
           re_p_open, re_div_open, re_h_open}"
  shows "\<exists>X. replace_g p r (u @ v) = X @ v"
proof (rule replace_g_tail_kept [where c = "chr_i GT" and lo = 1 and hi = "Some 1" and g = True])
  show "p \<noteq> []" using assms(2)
    by (auto simp: re_script_def re_style_def re_br_def re_p_close_def re_div_close_def
        re_h_close_def re_p_open_def re_div_open_def re_h_open_def lit_i_def)
  show "last p = Atom (chr_i GT) 1 (Some 1) True" using assms(2)
    by (auto simp: re_script_def re_style_def re_br_def re_p_close_def re_div_close_def
        re_h_close_def re_p_open_def re_div_open_def re_h_open_def lit_i_def once_def char_defs)
  show "0 < (1::nat)" by simp
  show "\<not> chr_i GT x" if "x \<in> set v" for x
    using that assms(1) by (auto simp: chr_i_simps)
qed

lemma tag_stages_tail_kept:
  assumes "GT \<notin> set v"
  shows "\<exists>X. opening_tags (block_boundaries (remove_danger (u @ v))) = X @ v"
proof -
  note t = tag_pass_tail_kept [OF assms]
  obtain a where a: "replace_g re_script [] (u @ v) = a @ v" using t [of re_script] by auto
  obtain b where b: "replace_g re_style [] (a @ v) = b @ v" using t [of re_style] by auto
  obtain c where c: "replace_g re_br [NL] (b @ v) = c @ v" using t [of re_br] by auto
  obtain d where d: "replace_g re_p_close [NL, NL] (c @ v) = d @ v" using t [of re_p_close] by auto
  obtain e where e: "replace_g re_div_close [NL, NL] (d @ v) = e @ v" using t [of re_div_close] by auto
  obtain f where f: "replace_g re_h_close [NL, NL] (e @ v) = f @ v" using t [of re_h_close] by auto
  obtain g where g: "replace_g re_p_open [] (f @ v) = g @ v" using t [of re_p_open] by auto
  obtain h where h: "replace_g re_div_open [] (g @ v) = h @ v" using t [of re_div_open] by auto
  obtain i where i: "replace_g re_h_open [] (h @ v) = i @ v" using t [of re_h_open] by auto
  have "opening_tags (block_boundaries (remove_danger (u @ v))) = i @ v"
    by (simp add: opening_tags_def block_boundaries_def remove_danger_def a b c d e f g h i)
  then show ?thesis by blast
qed

lemma htmlToParagraphs_Some:
  "htmlToParagraphs (Some s) = split_paragraphs (normalize_ws (markup_stages s))"
proof (cases "s = []")
  case True
  have "split_paragraphs (normalize_ws (markup_stages [])) = []" by code_simp
  then show ?thesis using True by (simp add: htmlToParagraphs_def)
next
  case False
  then show ?thesis by (simp add: htmlToParagraphs_def markup_stages_def)
qed

lemma unterminated_lt_input:
  assumes "GT \<notin> set (decode_entities post)"
  shows "\<exists>X. strip_tags (opening_tags (block_boundaries (remove_danger (decode_entities
            (pre @ LT # post))))) = X @ LT # decode_entities post"
    and "LT \<in> set (concat (htmlToParagraphs (Some (pre @ LT # post))))"
proof -
  let ?D = "decode_entities post"
  have g: "GT \<notin> set (LT # ?D)" using assms by (simp add: char_defs)
  have "decode_entities (pre @ LT # post) = decode_entities pre @ LT # ?D"
    by (simp add: decode_entities_cut)
  moreover obtain Y where
    "opening_tags (block_boundaries (remove_danger (decode_entities pre @ LT # ?D))) = Y @ LT # ?D"
    using tag_stages_tail_kept [OF g] by blast
  ultimately have "strip_tags (opening_tags (block_boundaries (remove_danger (decode_entities
      (pre @ LT # post))))) = strip_tags Y @ LT # ?D"
    using strip_tags_append [OF g] by simp
  then show a: "\<exists>X. strip_tags (opening_tags (block_boundaries (remove_danger (decode_entities
            (pre @ LT # post))))) = X @ LT # ?D" by blast
  then have "LT \<in> set (strip_tags (opening_tags (block_boundaries (remove_danger (decode_entities
            (pre @ LT # post))))))" by auto
  then show "LT \<in> set (concat (htmlToParagraphs (Some (pre @ LT # post))))"
    unfolding htmlToParagraphs_Some markup_stages_def
    by (intro split_paragraphs_keeps_lt normalize_ws_keeps_lt remove_noise_keeps_lt)
qed

subsection \<open>Passing over text in which no match begins\<close>

lemma lt_skip:
  assumes "LT \<notin> set u"
  shows "replace_g (lit_i (CHR ''<'' # w) @ as) r (u @ v) =
           u @ replace_g (lit_i (CHR ''<'' # w) @ as) r v"
proof (rule replace_g_skip)
  fix k assume k: "k < length u"
  then obtain y ys where d: "drop k u = y # ys" by (cases "drop k u") auto
  then have "y \<in> set u" by (metis in_set_dropD list.set_intros(1))
  then have "y \<noteq> LT" using assms by auto
  then have "\<not> starts_i (CHR ''<'' # w) (drop k u @ v)"
    unfolding d by (simp add: chr_i_num char_defs)
  then show "rmatch (lit_i (CHR ''<'' # w) @ as) (drop k u @ v) = None"
    by (simp only: rmatch_lit_i_starts if_False)
qed

lemma seg_skip:
  assumes "\<not> starts_i (CHR ''<'' # w) (LT # u @ v)" "LT \<notin> set u"
  shows "replace_g (lit_i (CHR ''<'' # w) @ as) r (LT # u @ v) =
           LT # u @ replace_g (lit_i (CHR ''<'' # w) @ as) r v"
proof -
  have "rmatch (lit_i (CHR ''<'' # w) @ as) (LT # u @ v) = None"
    using assms(1) by (simp only: rmatch_lit_i_starts if_False)
  then have "replace_g (lit_i (CHR ''<'' # w) @ as) r (LT # u @ v) =
      LT # replace_g (lit_i (CHR ''<'' # w) @ as) r (u @ v)" by simp
  then show ?thesis using lt_skip [OF assms(2)] by simp
qed


lemma same_i_absent:
  assumes "same_i w t" "\<And>c. c \<in> set w \<Longrightarrow> \<not> chr_i (of_char c) x"
  shows "x \<notin> set t"
  using assms unfolding same_i_def
  by (induction w t rule: list_all2_induct) auto


lemma starts_i_same_i:
  assumes "same_i w t" "starts_i w' (t @ v)"
  shows "list_all2 (\<lambda>c d. canonicalize (of_char c) = canonicalize (of_char d))
           (take (length w') w) (take (length w) w')"
  using assms unfolding same_i_def
proof (induction w t arbitrary: w' rule: list_all2_induct)
  case Nil
  then show ?case by simp
next
  case (Cons c w x t)
  then show ?case by (cases w') (auto simp: chr_i_def)
qed

lemma br_not_danger:
  assumes "same_i ''<br'' opn"
  shows "\<not> starts_i ''<script'' (opn @ v)" "\<not> starts_i ''<style'' (opn @ v)"
proof -
  show "\<not> starts_i ''<script'' (opn @ v)"
  proof
    assume "starts_i ''<script'' (opn @ v)"
    from starts_i_same_i [OF assms this] show False by (simp add: canonicalize_def)
  qed
  show "\<not> starts_i ''<style'' (opn @ v)"
  proof
    assume "starts_i ''<style'' (opn @ v)"
    from starts_i_same_i [OF assms this] show False by (simp add: canonicalize_def)
  qed
qed



subsection \<open>A line-break tag and a script or style block in the pipeline\<close>

lemma remove_danger_prefix:
  assumes "LT \<notin> set u"
  shows "remove_danger (u @ v) = u @ remove_danger v"
  by (simp add: remove_danger_def re_script_def re_style_def lt_skip [OF assms])

lemma br_tag_shape:
  assumes "same_i ''<br'' opn" "\<forall>x\<in>set ws. is_ws x" "sl = [] \<or> sl = [SLASH]"
  obtains t where "opn @ ws @ sl @ [GT] = LT # t" "LT \<notin> set t" "AMP \<notin> set (LT # t)"
proof -
  from assms(1) obtain o' where o: "opn = LT # o'" "same_i ''br'' o'" by (rule same_i_lt)
  have "LT \<notin> set o'"
    by (rule same_i_absent [OF o(2)]) (auto simp: chr_i_def canonicalize_def char_defs)
  moreover have "AMP \<notin> set o'"
    by (rule same_i_absent [OF o(2)]) (auto simp: chr_i_def canonicalize_def char_defs)
  moreover have "LT \<notin> set ws" "AMP \<notin> set ws"
    using assms(2) by (auto simp: is_ws_def char_defs)
  moreover have "LT \<notin> set sl" "AMP \<notin> set sl" using assms(3) by (auto simp: char_defs)
  ultimately have "LT \<notin> set (o' @ ws @ sl @ [GT])" "AMP \<notin> set (LT # o' @ ws @ sl @ [GT])"
    by (auto simp: char_defs)
  then show ?thesis using o(1) that [of "o' @ ws @ sl @ [GT]"] by simp
qed

lemma remove_danger_over_br:
  assumes "same_i ''<br'' opn" "\<forall>x\<in>set ws. is_ws x" "sl = [] \<or> sl = [SLASH]" "LT \<notin> set pre"
  shows "remove_danger (pre @ (opn @ ws @ sl @ [GT]) @ v) =
           pre @ (opn @ ws @ sl @ [GT]) @ remove_danger v"
proof -
  obtain t where t: "opn @ ws @ sl @ [GT] = LT # t" "LT \<notin> set t"
    using assms(1-3) by (rule br_tag_shape)
  have n: "\<not> starts_i ''<script'' (LT # t @ x)" "\<not> starts_i ''<style'' (LT # t @ x)" for x
    using br_not_danger [OF assms(1), of "ws @ sl @ [GT] @ x"] t(1)
    by (metis append_Cons append_assoc)+
  have "replace_g re_script [] (LT # t @ x) = LT # t @ replace_g re_script [] x" for x
    unfolding re_script_def by (rule seg_skip) (use n t(2) in auto)
  moreover have "replace_g re_style [] (LT # t @ x) = LT # t @ replace_g re_style [] x" for x
    unfolding re_style_def by (rule seg_skip) (use n t(2) in auto)
  ultimately have "remove_danger (LT # t @ v) = LT # t @ remove_danger v"
    by (simp add: remove_danger_def)
  then show ?thesis using remove_danger_prefix [OF assms(4)] t(1) by simp
qed

lemma br_pass_tag:
  assumes "same_i ''<br'' opn" "\<forall>x\<in>set ws. is_ws x" "sl = [] \<or> sl = [SLASH]"
  shows "replace_g re_br [NL] (pre @ opn @ ws @ sl @ GT # post) =
           replace_g re_br [NL] pre @ NL # replace_g re_br [NL] post"
proof -
  from assms(1) obtain t' where opn: "opn = LT # t'" by (rule same_i_lt)
  let ?tag = "opn @ ws @ sl @ [GT]"
  have none: "rmatch re_br [] = None"
    by (simp add: re_br_def lit_i_def once_def rmatch_first_fail)
  have "replace_g re_br [NL] (pre @ ?tag @ post) =
          replace_g re_br [NL] pre @ replace_g re_br [NL] (?tag @ post)"
    using none unfolding opn append_Cons
    by (rule replace_g_append) (rule rmatch_re_br_stop)
  moreover have "replace_g re_br [NL] (?tag @ post) = [NL] @ replace_g re_br [NL] post"
    by (rule replace_g_hit) (use rmatch_re_br [OF assms] in \<open>simp_all add: opn\<close>)
  ultimately show ?thesis by simp
qed

lemma br_tag_as_newline:
  assumes "same_i ''<br'' opn" "\<forall>x\<in>set ws. is_ws x" "sl = [] \<or> sl = [SLASH]"
    "LT \<notin> set (decode_entities pre)"
  shows "htmlToParagraphs (Some (pre @ opn @ ws @ sl @ GT # post)) =
           htmlToParagraphs (Some (pre @ NL # post))"
proof -
  let ?tag = "opn @ ws @ sl @ [GT]"
  let ?P = "decode_entities pre"
  let ?Y = "remove_danger (decode_entities post)"
  obtain t where t: "?tag = LT # t" "AMP \<notin> set (LT # t)"
    using assms(1-3) by (rule br_tag_shape)
  have "AMP \<notin> set t" using t(2) by simp
  then have "decode_entities (t @ post) = t @ decode_entities post"
    by (rule decode_entities_prefix)
  then have "decode_entities (pre @ LT # t @ post) = ?P @ LT # t @ decode_entities post"
    by (simp add: decode_entities_cut)
  then have "decode_entities (pre @ ?tag @ post) = ?P @ ?tag @ decode_entities post"
    using t(1) by simp
  then have l1: "remove_danger (decode_entities (pre @ opn @ ws @ sl @ GT # post)) = ?P @ ?tag @ ?Y"
    using remove_danger_over_br [OF assms(1-4)] by simp
  have ln: "LT \<notin> set (?P @ [NL])" using assms(4) by (simp add: char_defs)
  have "decode_entities (pre @ NL # post) = (?P @ [NL]) @ decode_entities post"
    by (simp add: decode_entities_cut)
  then have r1: "remove_danger (decode_entities (pre @ NL # post)) = (?P @ [NL]) @ ?Y"
    using remove_danger_prefix [OF ln] by simp
  have "replace_g re_br [NL] (?P @ ?tag @ ?Y) = replace_g re_br [NL] ?P @ NL # replace_g re_br [NL] ?Y"
    using br_pass_tag [OF assms(1-3)] by simp
  also have "replace_g re_br [NL] ?P = ?P"
    unfolding re_br_def using assms(4) by (rule lt_pass_id)
  finally have l2: "replace_g re_br [NL] (?P @ ?tag @ ?Y) = ?P @ NL # replace_g re_br [NL] ?Y" .
  have r2: "replace_g re_br [NL] ((?P @ [NL]) @ ?Y) = (?P @ [NL]) @ replace_g re_br [NL] ?Y"
    unfolding re_br_def using ln by (rule lt_skip)
  have "block_boundaries (remove_danger (decode_entities (pre @ opn @ ws @ sl @ GT # post))) =
        block_boundaries (remove_danger (decode_entities (pre @ NL # post)))"
    unfolding l1 r1 block_boundaries_def Let_def l2 r2 by simp
  then show ?thesis by (simp add: htmlToParagraphs_Some markup_stages_def)
qed






section \<open>Claims\<close>

text \<open>
  C1. The normalizer has no exceptional path. A missing argument and the empty string
  both give the empty sequence, and every argument has a paragraph sequence as its
  result, each paragraph of which is non-empty, trimmed and whitespace-normalized. The
  result type has no error value, and the loops behind \<open>replace_g\<close> and \<open>split_loop\<close>
  were accepted with their termination proofs.
\<close>

theorem htmlToParagraphs_total:
  "htmlToParagraphs None = [] \<and> htmlToParagraphs (Some []) = [] \<and>
   (\<exists>ps. htmlToParagraphs arg = ps \<and> list_all clean ps)"
proof -
  have "list_all clean (htmlToParagraphs arg)"
    by (simp add: list_all_iff htmlToParagraphs_clean)
  moreover have "htmlToParagraphs None = []" "htmlToParagraphs (Some []) = []"
    by (simp_all add: htmlToParagraphs_def)
  ultimately show ?thesis by simp
qed

theorem htmlToParagraphs_total_witness:
  "htmlToParagraphs (Some (js ''<p>Hello</p>'')) = [js ''Hello''] \<and> clean (js ''Hello'')"
proof -
  have e: "htmlToParagraphs (Some (js ''<p>Hello</p>'')) = [js ''Hello'']" by code_simp
  from htmlToParagraphs_total [of "Some (js ''<p>Hello</p>'')"]
  have "list_all clean (htmlToParagraphs (Some (js ''<p>Hello</p>'')))" by blast
  then show ?thesis unfolding e using e by simp
qed




text \<open>
  C3, as the code has it. A line-break tag written \<open><br\<close> in any letter case, then any
  whitespace, then an optional slash, then \<open>>\<close>, becomes one newline in the first
  substitution of the block-boundary stage, wherever it stands in the text that stage
  receives; the text before and after it is treated on its own. That stage comes after
  danger removal and before the removal of opening tags and generic tag stripping (the
  last equation below is the order of the stages). When the text before
  the tag has no \<open><\<close> once its entities are decoded, the normalizer returns what it
  returns for the input with a newline character in place of the tag: the conversion
  has its effect before generic tag stripping. \<open>Line1<br>Line2\<close> is one paragraph with a
  newline inside.
\<close>

theorem br_tag_to_newline:
  assumes "same_i ''<br'' opn" "\<forall>x\<in>set ws. is_ws x" "sl = [] \<or> sl = [SLASH]"
  shows "block_boundaries (pre @ opn @ ws @ sl @ GT # post) =
           replace_g re_h_close [NL, NL] (replace_g re_div_close [NL, NL]
             (replace_g re_p_close [NL, NL]
               (replace_g re_br [NL] pre @ NL # replace_g re_br [NL] post))) \<and>
         (LT \<notin> set (decode_entities pre) \<longrightarrow>
            htmlToParagraphs (Some (pre @ opn @ ws @ sl @ GT # post)) =
            htmlToParagraphs (Some (pre @ NL # post))) \<and>
         htmlToParagraphs (Some (js ''Line1<br>Line2'')) = [js ''Line1'' @ NL # js ''Line2''] \<and>
         htmlToParagraphs (Some s) =
           split_paragraphs (normalize_ws (remove_noise (strip_tags (opening_tags
             (block_boundaries (remove_danger (decode_entities s)))))))"
proof -
  have "block_boundaries (pre @ opn @ ws @ sl @ GT # post) =
           replace_g re_h_close [NL, NL] (replace_g re_div_close [NL, NL]
             (replace_g re_p_close [NL, NL]
               (replace_g re_br [NL] pre @ NL # replace_g re_br [NL] post)))"
    by (simp add: block_boundaries_def br_pass_tag [OF assms])
  moreover have "htmlToParagraphs (Some (pre @ opn @ ws @ sl @ GT # post)) =
            htmlToParagraphs (Some (pre @ NL # post))"
    if "LT \<notin> set (decode_entities pre)"
    using assms that by (rule br_tag_as_newline)
  moreover have "htmlToParagraphs (Some (js ''Line1<br>Line2'')) = [js ''Line1'' @ NL # js ''Line2'']"
    by code_simp
  moreover have "htmlToParagraphs (Some s) =
           split_paragraphs (normalize_ws (remove_noise (strip_tags (opening_tags
             (block_boundaries (remove_danger (decode_entities s)))))))"
    by (simp only: htmlToParagraphs_Some markup_stages_def)
  ultimately show ?thesis by blast
qed

theorem br_tag_to_newline_witness:
  "same_i ''<br'' (js ''<BR'') \<and> list_all is_ws (js '' '') \<and>
   LT \<notin> set (decode_entities (js ''Line1'')) \<and>
   block_boundaries (js ''Line1<BR />Line2'') = js ''Line1'' @ NL # js ''Line2'' \<and>
   htmlToParagraphs (Some (js ''Line1<BR />Line2'')) =
     htmlToParagraphs (Some (js ''Line1'' @ NL # js ''Line2''))"
proof -
  have a: "same_i ''<br'' (js ''<BR'')" by code_simp
  have b: "\<forall>x\<in>set (js '' ''). is_ws x" by code_simp
  then have b': "list_all is_ws (js '' '')" by (simp only: list_all_iff)
  have c: "[SLASH] = [] \<or> [SLASH] = [SLASH]" by simp
  have d: "LT \<notin> set (decode_entities (js ''Line1''))" by code_simp
  have e: "js ''Line1'' @ js ''<BR'' @ js '' '' @ [SLASH] @ GT # js ''Line2'' = js ''Line1<BR />Line2''"
    by code_simp
  have r: "replace_g re_h_close [NL, NL] (replace_g re_div_close [NL, NL]
             (replace_g re_p_close [NL, NL]
               (replace_g re_br [NL] (js ''Line1'') @ NL # replace_g re_br [NL] (js ''Line2'')))) =
           js ''Line1'' @ NL # js ''Line2''"
    by code_simp
  from br_tag_to_newline [OF a b c, of "js ''Line1''" "js ''Line2''"] show ?thesis
    unfolding e r using a b' d by blast
qed

text \<open>
  The claim as stated fails on a line-break tag that carries an attribute: the pattern
  of the block-boundary stage does not match it, so the stage leaves it in place, and
  generic tag stripping deletes it without a newline.
\<close>

theorem br_attribute_counterexample:
  "block_boundaries (js ''Line1<br clear=all>Line2'') = js ''Line1<br clear=all>Line2'' \<and>
   htmlToParagraphs (Some (js ''Line1<br clear=all>Line2'')) = [js ''Line1Line2'']"
  by code_simp

text \<open>
  C4, as the code has it. When the entity, tag and noise stages leave the joined
  paragraphs of an input unchanged, normalizing the joined text gives back the
  paragraphs of the input; and those stages do leave the joined text unchanged when it
  contains no \<open>&\<close>, no \<open><\<close> and no \<open>#\<close>.
\<close>

theorem renormalize_plain_text:
  "(markup_stages (joinParagraphs arg) = joinParagraphs arg \<longrightarrow>
      htmlToParagraphs (Some (joinParagraphs arg)) = htmlToParagraphs arg) \<and>
   (AMP \<notin> set (joinParagraphs arg) \<and> LT \<notin> set (joinParagraphs arg) \<and>
    HASH \<notin> set (joinParagraphs arg) \<longrightarrow>
      markup_stages (joinParagraphs arg) = joinParagraphs arg)"
proof -
  have j: "joinParagraphs arg = sep_concat [NL, NL] (htmlToParagraphs arg)"
    by (simp add: joinParagraphs_def array_join_sep_concat)
  have "htmlToParagraphs (Some (joinParagraphs arg)) = htmlToParagraphs arg"
    if "markup_stages (joinParagraphs arg) = joinParagraphs arg"
    using that unfolding j by (intro renormalize_joined htmlToParagraphs_clean)
  moreover have "markup_stages (joinParagraphs arg) = joinParagraphs arg"
    if "AMP \<notin> set (joinParagraphs arg)" "LT \<notin> set (joinParagraphs arg)"
      "HASH \<notin> set (joinParagraphs arg)"
    using that by (rule markup_stages_id)
  ultimately show ?thesis by blast
qed

theorem renormalize_plain_text_witness:
  "markup_stages (joinParagraphs (Some (js ''<p>A  b</p><p>C</p>''))) =
     joinParagraphs (Some (js ''<p>A  b</p><p>C</p>'')) \<and>
   AMP \<notin> set (joinParagraphs (Some (js ''<p>A  b</p><p>C</p>''))) \<and>
   LT \<notin> set (joinParagraphs (Some (js ''<p>A  b</p><p>C</p>''))) \<and>
   HASH \<notin> set (joinParagraphs (Some (js ''<p>A  b</p><p>C</p>''))) \<and>
   htmlToParagraphs (Some (joinParagraphs (Some (js ''<p>A  b</p><p>C</p>'')))) =
     htmlToParagraphs (Some (js ''<p>A  b</p><p>C</p>''))"
proof -
  have a: "AMP \<notin> set (joinParagraphs (Some (js ''<p>A  b</p><p>C</p>'')))"
    and b: "LT \<notin> set (joinParagraphs (Some (js ''<p>A  b</p><p>C</p>'')))"
    and c: "HASH \<notin> set (joinParagraphs (Some (js ''<p>A  b</p><p>C</p>'')))"
    by code_simp+
  from renormalize_plain_text [of "Some (js ''<p>A  b</p><p>C</p>'')"] a b c show ?thesis
    by blast
qed

text \<open>
  The claim as stated fails. The substitution for \<open>&amp;\<close> does not look at its own
  output, so \<open>&amp;amp;\<close> is normalized to \<open>&amp;\<close>, and a second run turns that into
  \<open>&\<close>.
\<close>

theorem renormalize_counterexample:
  "htmlToParagraphs (Some (js ''&amp;amp;'')) = [js ''&amp;''] \<and>
   joinParagraphs (Some (js ''&amp;amp;'')) = js ''&amp;'' \<and>
   htmlToParagraphs (Some (joinParagraphs (Some (js ''&amp;amp;'')))) = [js ''&''] \<and>
   htmlToParagraphs (Some (joinParagraphs (Some (js ''&amp;amp;'')))) \<noteq>
     htmlToParagraphs (Some (js ''&amp;amp;''))"
  by code_simp

text \<open>
  C5. The preview join of any input is the paragraph sequence of that input, concatenated
  with two newlines between neighbouring paragraphs and nothing else.
\<close>

theorem joinParagraphs_concat:
  "joinParagraphs arg = sep_concat [NL, NL] (htmlToParagraphs arg)"
  by (simp add: joinParagraphs_def array_join_sep_concat)

text \<open>
  C6. Every paragraph returned by the normalizer is non-empty, and stays non-empty when
  it is trimmed once more.
\<close>

theorem paragraphs_nonempty_trimmed:
  "\<forall>p \<in> set (htmlToParagraphs arg). p \<noteq> [] \<and> trim p \<noteq> []"
  using htmlToParagraphs_elem by fastforce

theorem paragraphs_nonempty_trimmed_witness:
  "js ''Hello'' \<in> set (htmlToParagraphs (Some (js ''<p>Hello</p>''))) \<and>
   js ''Hello'' \<noteq> [] \<and> trim (js ''Hello'') \<noteq> []"
proof -
  have m: "js ''Hello'' \<in> set (htmlToParagraphs (Some (js ''<p>Hello</p>'')))"
    by code_simp
  with paragraphs_nonempty_trimmed [of "Some (js ''<p>Hello</p>'')"] show ?thesis
    by blast
qed

text \<open>
  C7. Two paragraph elements in a row give two paragraphs, in source order: each closing
  tag becomes a pair of newlines, and the split cuts there.
\<close>

theorem two_paragraphs:
  "htmlToParagraphs (Some (js ''<p>A</p><p>B</p>'')) = [js ''A'', js ''B''] \<and>
   block_boundaries (js ''<p>A</p><p>B</p>'') = js ''<p>A'' @ [NL, NL] @ js ''<p>B'' @ [NL, NL]"
  by code_simp

text \<open>
  C8. Two non-breaking-space entities decode to two spaces, and the whitespace stage
  leaves one space between the letters.
\<close>

theorem nbsp_collapse:
  "htmlToParagraphs (Some (js ''A&nbsp;&nbsp;B'')) = [js ''A B''] \<and>
   decode_entities (js ''A&nbsp;&nbsp;B'') = js ''A  B'' \<and>
   normalize_ws (js ''A  B'') = js ''A B''"
  by code_simp

text \<open>
  C9. A hash followed by five digits is deleted by the noise stage, which leaves two
  spaces; the whitespace stage, which runs afterwards, leaves one.
\<close>

theorem hash_noise_removed:
  "htmlToParagraphs (Some (js ''Text #12345 more'')) = [js ''Text more''] \<and>
   remove_noise (js ''Text #12345 more'') = js ''Text  more'' \<and>
   normalize_ws (js ''Text  more'') = js ''Text more''"
  by code_simp

text \<open>
  C10, as the code has it. A \<open><\<close> of the input after which the text, once its entities
  are decoded, contains no \<open>>\<close> survives entity decoding and every tag substitution: it
  reaches the noise stage together with the decoded text after it, and it is present in
  the paragraphs returned. That is so in particular when neither \<open>>\<close> nor \<open>&\<close> follows
  the \<open><\<close> in the input, as in \<open>a < b\<close>, which comes out unchanged. Generic tag stripping
  itself leaves alone every \<open><\<close> that has no \<open>>\<close> after it in the text it receives,
  whatever precedes it: its pattern needs a closing \<open>>\<close>.
\<close>

theorem unterminated_lt_kept:
  "(GT \<notin> set post \<longrightarrow>
      strip_tags (pre @ LT # post) = strip_tags pre @ LT # post \<and>
      LT \<in> set (concat (split_paragraphs (normalize_ws (remove_noise
             (strip_tags (pre @ LT # post))))))) \<and>
   (GT \<notin> set (decode_entities post) \<longrightarrow>
      (\<exists>X. strip_tags (opening_tags (block_boundaries (remove_danger (decode_entities
             (pre @ LT # post))))) = X @ LT # decode_entities post) \<and>
      LT \<in> set (concat (htmlToParagraphs (Some (pre @ LT # post))))) \<and>
   (GT \<notin> set post \<and> AMP \<notin> set post \<longrightarrow> GT \<notin> set (decode_entities post)) \<and>
   htmlToParagraphs (Some (js ''a < b'')) = [js ''a < b'']"
proof -
  have "strip_tags (pre @ LT # post) = strip_tags pre @ LT # post \<and>
      LT \<in> set (concat (split_paragraphs (normalize_ws (remove_noise
             (strip_tags (pre @ LT # post))))))"
    if "GT \<notin> set post"
  proof -
    have "GT \<notin> set (LT # post)" using that by (simp add: char_defs)
    then have eq: "strip_tags (pre @ LT # post) = strip_tags pre @ LT # post"
      by (rule strip_tags_append)
    then have "LT \<in> set (strip_tags (pre @ LT # post))" by simp
    then show ?thesis using eq
      by (intro conjI split_paragraphs_keeps_lt normalize_ws_keeps_lt remove_noise_keeps_lt)
  qed
  moreover have "(\<exists>X. strip_tags (opening_tags (block_boundaries (remove_danger (decode_entities
             (pre @ LT # post))))) = X @ LT # decode_entities post) \<and>
      LT \<in> set (concat (htmlToParagraphs (Some (pre @ LT # post))))"
    if "GT \<notin> set (decode_entities post)"
    using unterminated_lt_input [OF that] by blast
  moreover have "GT \<notin> set (decode_entities post)" if "GT \<notin> set post" "AMP \<notin> set post"
    using that by (simp add: decode_entities_id)
  moreover have "htmlToParagraphs (Some (js ''a < b'')) = [js ''a < b'']" by code_simp
  ultimately show ?thesis by blast
qed

theorem unterminated_lt_kept_witness:
  "GT \<notin> set (js '' b'') \<and> AMP \<notin> set (js '' b'') \<and> GT \<notin> set (decode_entities (js '' b'')) \<and>
   strip_tags (js ''a < b'') = js ''a < b'' \<and>
   LT \<in> set (concat (htmlToParagraphs (Some (js ''a < b''))))"
proof -
  have g: "GT \<notin> set (js '' b'')" "AMP \<notin> set (js '' b'')" by code_simp+
  have e: "js ''a '' @ LT # js '' b'' = js ''a < b''" by code_simp
  have s: "strip_tags (js ''a '') = js ''a ''" by code_simp
  from unterminated_lt_kept [of "js '' b''" "js ''a ''"] show ?thesis
    unfolding e s using g by blast
qed

text \<open>
  The claim as stated fails. In \<open>a < b &gt; c\<close> no \<open>>\<close> follows the \<open><\<close>, but the entity
  is decoded to \<open>>\<close> before generic tag stripping runs, which then deletes \<open>< b >\<close>.
\<close>

theorem unterminated_lt_counterexample:
  "LT \<in> set (js ''a < b &gt; c'') \<and> GT \<notin> set (js ''a < b &gt; c'') \<and>
   htmlToParagraphs (Some (js ''a < b &gt; c'')) = [js ''a c''] \<and>
   LT \<notin> set (concat (htmlToParagraphs (Some (js ''a < b &gt; c''))))"
  by code_simp

end
